theory Spec2Isabelle
  imports Complex_Main "HOL-Library.Word"
begin

section \<open>The JSON parser of PulseAudio (src/pulse/json.c)\<close>

text \<open>
  A shallow embedding of \<^verbatim>\<open>src/pulse/json.c\<close>: the value type, the recursive-descent
  parser and the typed accessors. The conventions of the embedding:

  \<^item> The input is a null-terminated C string. It is a \<open>string\<close> here, and the cursor
    \<^verbatim>\<open>const char *str\<close> is the remaining suffix: \<open>peek str\<close> is \<^verbatim>\<open>*str\<close> (the null
    character at the end of the list), \<open>tl str\<close> is \<^verbatim>\<open>str++\<close>. Every \<^verbatim>\<open>str++\<close> of the
    source follows a comparison of \<^verbatim>\<open>*str\<close> with a character that is not null, so the
    cursor never passes the terminator, and a list with a null character in it behaves as
    the C string that ends there.
  \<^item> A function that returns the new cursor, or \<^verbatim>\<open>NULL\<close> on failure, and fills an object
    through a pointer returns an option of the pair of the cursor and the object. On
    failure the source releases the object, so nothing of it is kept.
  \<^item> \<^verbatim>\<open>unsigned int\<close> is a 32-bit word; \<^verbatim>\<open>int\<close> is 32 bits wide. The signed overflow of
    the exponent accumulator, undefined in C, is taken as the two's complement wrap-around.
  \<^item> The \<^verbatim>\<open>double\<close> payload is a real number: the arithmetic of the source expression
    is exact here, the rounding of IEEE arithmetic and of \<^verbatim>\<open>pow\<close> is not modelled.
  \<^item> The parser attaches only newly created children, so the heap of nodes is a tree; a
    node is its reference counter and its tagged payload.
\<close>

subsection \<open>Values\<close>

text \<open>
  \<^verbatim>\<open>pa_json_type\<close> is declared in \<^verbatim>\<open>pulse/json.h\<close>, which is not among the sources at
  hand; the constants are the ones \<^verbatim>\<open>json.c\<close> uses. \<^verbatim>\<open>PA_JSON_TYPE_INIT\<close> is the type
  of a zero-filled node: \<^verbatim>\<open>parse_value\<close> tests a fresh node for it to detect that no data
  was read.
\<close>

datatype pa_json_type =
    PA_JSON_TYPE_INIT
  | PA_JSON_TYPE_NULL
  | PA_JSON_TYPE_INT
  | PA_JSON_TYPE_DOUBLE
  | PA_JSON_TYPE_BOOL
  | PA_JSON_TYPE_STRING
  | PA_JSON_TYPE_ARRAY
  | PA_JSON_TYPE_OBJECT

text \<open>
  \<^verbatim>\<open>struct pa_json_object\<close> (lines 33-45): the reference counter
  (\<^verbatim>\<open>PA_REFCNT_DECLARE\<close>), the type tag and the union of payloads. Tag and payload are one
  constructor of \<open>json_union\<close>; \<open>JSON_OBJECT_TYPE\<close> (line 47) reads the tag. An object maps
  names to values (a hashmap), an array is a sequence of values (an idxset).
\<close>

datatype pa_json_object = JSON (refcnt: int) (payload: json_union)
and json_union =
    V_INIT
  | V_NULL
  | V_INT int
  | V_DOUBLE real
  | V_BOOL bool
  | V_STRING string
  | V_OBJECT "(string \<times> pa_json_object) list"
  | V_ARRAY "pa_json_object list"

fun JSON_OBJECT_TYPE :: "pa_json_object \<Rightarrow> pa_json_type" where
  "JSON_OBJECT_TYPE (JSON r V_INIT) = PA_JSON_TYPE_INIT"
| "JSON_OBJECT_TYPE (JSON r V_NULL) = PA_JSON_TYPE_NULL"
| "JSON_OBJECT_TYPE (JSON r (V_INT i)) = PA_JSON_TYPE_INT"
| "JSON_OBJECT_TYPE (JSON r (V_DOUBLE d)) = PA_JSON_TYPE_DOUBLE"
| "JSON_OBJECT_TYPE (JSON r (V_BOOL b)) = PA_JSON_TYPE_BOOL"
| "JSON_OBJECT_TYPE (JSON r (V_STRING s)) = PA_JSON_TYPE_STRING"
| "JSON_OBJECT_TYPE (JSON r (V_OBJECT h)) = PA_JSON_TYPE_OBJECT"
| "JSON_OBJECT_TYPE (JSON r (V_ARRAY a)) = PA_JSON_TYPE_ARRAY"

text \<open>
  Assigning \<^verbatim>\<open>obj->type\<close> and the payload leaves the reference counter as it is.
\<close>

definition set_payload :: "pa_json_object \<Rightarrow> json_union \<Rightarrow> pa_json_object" where
  "set_payload obj v = JSON (refcnt obj) v"

text \<open>
  \<^verbatim>\<open>json_object_new\<close> (lines 51-57) allocates a zero-filled node with \<^verbatim>\<open>pa_xnew0\<close> and
  returns it: the counter is 0 and the type is \<^verbatim>\<open>PA_JSON_TYPE_INIT\<close>. The source has no
  \<^verbatim>\<open>PA_REFCNT_INIT\<close> here.
\<close>

definition json_object_new :: pa_json_object where
  "json_object_new = JSON 0 V_INIT"

subsection \<open>Characters and the cursor\<close>

definition peek :: "string \<Rightarrow> char" where
  "peek str = (case str of [] \<Rightarrow> CHR 0x00 | c # _ \<Rightarrow> c)"

text \<open>
  \<^verbatim>\<open>is_whitespace\<close> (lines 59-61), \<^verbatim>\<open>is_digit\<close> (lines 63-65). The comparison of
  \<^verbatim>\<open>is_digit\<close> is on byte values; a byte above 0x7F is not a digit whether \<^verbatim>\<open>char\<close> is
  signed or not.
\<close>

definition is_whitespace :: "char \<Rightarrow> bool" where
  "is_whitespace c \<longleftrightarrow> c = CHR 0x09 \<or> c = CHR 0x0A \<or> c = CHR 0x0D \<or> c = CHR '' ''"

definition is_digit :: "char \<Rightarrow> bool" where
  "is_digit c \<longleftrightarrow> (of_char (CHR ''0'') :: nat) \<le> of_char c \<and> (of_char c :: nat) \<le> of_char (CHR ''9'')"

text \<open>
  \<^verbatim>\<open>is_end\<close> (lines 67-79): without a terminator set the end is the null character;
  otherwise the loop walks the set up to its terminator.
\<close>

fun is_end_loop :: "char \<Rightarrow> string \<Rightarrow> bool" where
  "is_end_loop c [] = False"
| "is_end_loop c (e # end) =
     (if e = CHR 0x00 then False else if c = e then True else is_end_loop c end)"

fun is_end :: "char \<Rightarrow> string option \<Rightarrow> bool" where
  "is_end c None = (c = CHR 0x00)"
| "is_end c (Some end) = is_end_loop c end"

text \<open>
\<^verbatim>\<open>consume_string\<close> (lines 81-91).
\<close>

fun consume_string :: "string \<Rightarrow> string \<Rightarrow> string option" where
  "consume_string str [] = Some str"
| "consume_string str (e # expect) =
     (if e = CHR 0x00 then Some str
      else if peek str \<noteq> e then None
      else consume_string (tl str) expect)"

subsection \<open>The literal productions\<close>

text \<open>
\<^verbatim>\<open>parse_null\<close> (lines 93-100).
\<close>

definition parse_null :: "string \<Rightarrow> pa_json_object \<Rightarrow> (string \<times> pa_json_object) option" where
  "parse_null str obj =
     (case consume_string str ''null'' of
        None \<Rightarrow> None
      | Some str' \<Rightarrow> Some (str', set_payload obj V_NULL))"

text \<open>
  \<^verbatim>\<open>parse_boolean\<close> (lines 102-120). When neither literal matches, the source still
  stores a Bool in the object (its test is on \<^verbatim>\<open>str\<close>, which is never null) and returns
  \<^verbatim>\<open>NULL\<close>; the caller then releases the object, so the failure is \<open>None\<close>.
\<close>

definition parse_boolean :: "string \<Rightarrow> pa_json_object \<Rightarrow> (string \<times> pa_json_object) option" where
  "parse_boolean str obj =
     (case consume_string str ''true'' of
        Some tmp \<Rightarrow> Some (tmp, set_payload obj (V_BOOL True))
      | None \<Rightarrow>
         (case consume_string str ''false'' of
            Some tmp \<Rightarrow> Some (tmp, set_payload obj (V_BOOL False))
          | None \<Rightarrow> None))"

lemma peek_tl_length: "peek str \<noteq> CHR 0x00 \<Longrightarrow> length (tl str) < length str"
  by (cases str) (simp_all add: peek_def)

lemma peek_neq_Nil: "peek str = c \<Longrightarrow> c \<noteq> CHR 0x00 \<Longrightarrow> str \<noteq> []"
  by (cases str) (simp_all add: peek_def)

text \<open>
  The loop of \<^verbatim>\<open>parse_string\<close> (lines 127-179) with the string buffer as accumulator.
  The range test \<^verbatim>\<open>*str < 0x20 || *str > 0x7E\<close> is on the byte value: with a signed
  \<^verbatim>\<open>char\<close> a byte above 0x7F is negative and fails the first comparison, with an unsigned
  one it fails the second. The null character fails it too, which ends an unterminated
  string. After a backslash the \<^verbatim>\<open>switch\<close> decides on the next character.
\<close>

function parse_string_loop :: "string \<Rightarrow> string \<Rightarrow> (string \<times> string) option" where
  "parse_string_loop str buf =
     (if peek str \<noteq> CHR 0x22 then
        (if peek str \<noteq> CHR 0x5C then
           (if (of_char (peek str) :: nat) < 0x20 \<or> (of_char (peek str) :: nat) > 0x7E then None
            else parse_string_loop (tl str) (buf @ [peek str]))
         else
           (if peek (tl str) = CHR 0x22 \<or> peek (tl str) = CHR 0x5C \<or> peek (tl str) = CHR ''/''
              then parse_string_loop (tl (tl str)) (buf @ [peek (tl str)])
            else if peek (tl str) = CHR ''b'' then parse_string_loop (tl (tl str)) (buf @ [CHR 0x08])
            else if peek (tl str) = CHR ''f'' then parse_string_loop (tl (tl str)) (buf @ [CHR 0x0C])
            else if peek (tl str) = CHR ''n'' then parse_string_loop (tl (tl str)) (buf @ [CHR 0x0A])
            else if peek (tl str) = CHR ''r'' then parse_string_loop (tl (tl str)) (buf @ [CHR 0x0D])
            else if peek (tl str) = CHR ''t'' then parse_string_loop (tl (tl str)) (buf @ [CHR 0x09])
            else if peek (tl str) = CHR ''u'' then None
            else None))
      else Some (tl str, buf))"
  by pat_completeness auto

termination
  by (relation "measure (\<lambda>(str, buf). length str)")
     (auto simp: peek_def split: list.splits)

text \<open>
  \<^verbatim>\<open>parse_string\<close> (lines 122-196): the leading quote is consumed, the loop runs, and the
  closing quote the loop stopped at is consumed (inside \<open>parse_string_loop\<close>). The loop
  is left only at a quote, so the test for a quote after it (line 181) cannot fail.
\<close>

definition parse_string :: "string \<Rightarrow> pa_json_object \<Rightarrow> (string \<times> pa_json_object) option" where
  "parse_string str obj =
     (case parse_string_loop (tl str) [] of
        None \<Rightarrow> None
      | Some (str', buf) \<Rightarrow> Some (str', set_payload obj (V_STRING buf)))"

text \<open>
  The \<^verbatim>\<open>switch\<close> of \<^verbatim>\<open>parse_string\<close> on the escaped character, as a function: the
  character it appends, or \<open>None\<close> where it fails.
\<close>

definition unescape :: "char \<Rightarrow> char option" where
  "unescape c =
     (if c = CHR 0x22 \<or> c = CHR 0x5C \<or> c = CHR ''/'' then Some c
      else if c = CHR ''b'' then Some (CHR 0x08)
      else if c = CHR ''f'' then Some (CHR 0x0C)
      else if c = CHR ''n'' then Some (CHR 0x0A)
      else if c = CHR ''r'' then Some (CHR 0x0D)
      else if c = CHR ''t'' then Some (CHR 0x09)
      else None)"

text \<open>
  \<^verbatim>\<open>parse_number\<close> (lines 198-263). Its three digit loops: the integer part (lines
  215-218), the fraction with its digit count (lines 225-229), and the exponent (lines
  244-247), whose accumulator is a signed \<^verbatim>\<open>int\<close>.
\<close>

type_synonym uint = "32 word"

definition digit_val :: "char \<Rightarrow> nat" where
  "digit_val c = of_char c - of_char (CHR ''0'')"

function parse_number_integer :: "string \<Rightarrow> uint \<Rightarrow> string \<times> uint" where
  "parse_number_integer str integer =
     (if is_digit (peek str)
      then parse_number_integer (tl str) (integer * 10 + of_nat (digit_val (peek str)))
      else (str, integer))"
  by pat_completeness auto

termination
  by (relation "measure (\<lambda>(str, i). length str)")
     (auto simp: peek_def is_digit_def split: list.splits)

function parse_number_fraction :: "string \<Rightarrow> uint \<Rightarrow> uint \<Rightarrow> string \<times> uint \<times> uint" where
  "parse_number_fraction str fraction fraction_digits =
     (if is_digit (peek str)
      then parse_number_fraction (tl str) (fraction * 10 + of_nat (digit_val (peek str)))
             (fraction_digits + 1)
      else (str, fraction, fraction_digits))"
  by pat_completeness auto

termination
  by (relation "measure (\<lambda>(str, f, d). length str)")
     (auto simp: peek_def is_digit_def split: list.splits)

function parse_number_exponent :: "string \<Rightarrow> 32 word \<Rightarrow> string \<times> 32 word" where
  "parse_number_exponent str exponent =
     (if is_digit (peek str)
      then parse_number_exponent (tl str) (exponent * 10 + of_nat (digit_val (peek str)))
      else (str, exponent))"
  by pat_completeness auto

termination
  by (relation "measure (\<lambda>(str, e). length str)")
     (auto simp: peek_def is_digit_def split: list.splits)

text \<open>
  The cursor after each step has its own name. The Int payload is the product
  \<^verbatim>\<open>(negative ? -1 : 1) * integer\<close>, computed in \<^verbatim>\<open>unsigned int\<close> and stored in an
  \<^verbatim>\<open>int\<close>. The production always returns a cursor.
\<close>

definition parse_number :: "string \<Rightarrow> pa_json_object \<Rightarrow> (string \<times> pa_json_object) option" where
  "parse_number str0 obj =
     (let negative = (peek str0 = CHR ''-'');
          str1 = (if negative then tl str0 else str0);
          (str2, integer) =
             (if peek str1 = CHR ''0'' then (tl str1, 0) else parse_number_integer str1 0);
          has_fraction = (peek str2 = CHR ''.'');
          (str3, fraction, fraction_digits) =
             (if has_fraction then parse_number_fraction (tl str2) 0 0 else (str2, 0, 0));
          has_exponent = (peek str3 = CHR ''e'' \<or> peek str3 = CHR ''E'');
          (str4, exponent) =
             (if has_exponent then
                (let exponent_negative = (peek (tl str3) = CHR ''-'');
                     str3' = (if exponent_negative then tl (tl str3)
                              else if peek (tl str3) = CHR ''+'' then tl (tl str3)
                              else tl str3);
                     (str4, exponent) = parse_number_exponent str3' 0
                 in (str4, if exponent_negative then exponent * (-1) else exponent))
              else (str3, 0))
      in if has_fraction \<or> has_exponent then
           Some (str4, set_payload obj (V_DOUBLE
             ((if negative then -1 else 1)
               * (real (unat integer) + real (unat fraction) / 10 ^ unat fraction_digits)
               * 10 powi sint exponent)))
         else
           Some (str4, set_payload obj (V_INT (sint ((if negative then -1 else 1) * integer)))))"

subsection \<open>Collaborators outside the sources\<close>

text \<open>
  Modelled from the spec: \<^verbatim>\<open>pa_hashmap_put\<close> (pulsecore/hashmap.c) is not among the
  sources at hand. The spec: an Object is a mapping from string key (unique) to Value,
  insertion order not guaranteed preserved; last write for a repeated key wins.
\<close>

fun pa_hashmap_put ::
  "(string \<times> pa_json_object) list \<Rightarrow> string \<Rightarrow> pa_json_object \<Rightarrow> (string \<times> pa_json_object) list" where
  "pa_hashmap_put [] key val = [(key, val)]"
| "pa_hashmap_put ((k, v) # h) key val =
     (if k = key then (k, val) # h else (k, v) # pa_hashmap_put h key val)"

text \<open>
  Modelled from the spec: \<^verbatim>\<open>pa_hashmap_get\<close> (pulsecore/hashmap.c) is not among the
  sources at hand. The spec: lookup by exact key match; an absent key gives "not found"
  (a null reference).
\<close>

definition pa_hashmap_get :: "(string \<times> pa_json_object) list \<Rightarrow> string \<Rightarrow> pa_json_object option" where
  "pa_hashmap_get h key = map_of h key"

text \<open>
  Modelled from the spec: \<^verbatim>\<open>pa_idxset_put\<close> (pulsecore/idxset.c) is not among the
  sources at hand. The spec: an Array is an ordered sequence of Value; elements are appended
  in encounter order. The parser only puts nodes it has just created.
\<close>

definition pa_idxset_put :: "pa_json_object list \<Rightarrow> pa_json_object \<Rightarrow> pa_json_object list" where
  "pa_idxset_put s p = s @ [p]"

text \<open>
  Modelled from the spec: \<^verbatim>\<open>pa_idxset_size\<close> (pulsecore/idxset.c) is not among the
  sources at hand. The spec: the length of the Array, the number of its elements.
\<close>

definition pa_idxset_size :: "pa_json_object list \<Rightarrow> nat" where
  "pa_idxset_size s = length s"

text \<open>
  Modelled from the spec: \<^verbatim>\<open>pa_idxset_get_by_index\<close> (pulsecore/idxset.c) is not among
  the sources at hand. The spec: elements are retrievable by encounter order via positional
  index; the lookup is bounds-checked and an out-of-range index gives "not found". The
  index is an unsigned 32-bit integer.
\<close>

definition pa_idxset_get_by_index :: "pa_json_object list \<Rightarrow> nat \<Rightarrow> pa_json_object option" where
  "pa_idxset_get_by_index s idx = (if idx < length s then Some (s ! idx) else None)"

subsection \<open>The value parser\<close>

text \<open>
  The inner loop of \<^verbatim>\<open>parse_array\<close> that chews up whitespace (lines 326-327).
\<close>

fun skip_whitespace :: "string \<Rightarrow> string" where
  "skip_whitespace [] = []"
| "skip_whitespace (c # str) = (if is_whitespace c then skip_whitespace str else c # str)"

text \<open>
  \<^verbatim>\<open>pa_json_object_get_string\<close> (lines 496-499), which \<^verbatim>\<open>parse_object\<close> calls for the
  key: \<^verbatim>\<open>pa_return_val_if_fail\<close> returns \<^verbatim>\<open>NULL\<close> when the type is not String.
\<close>

fun pa_json_object_get_string :: "pa_json_object \<Rightarrow> string option" where
  "pa_json_object_get_string (JSON r (V_STRING s)) = Some s"
| "pa_json_object_get_string _ = None"

datatype json_parser_state = JSON_PARSER_STATE_INIT | JSON_PARSER_STATE_FINISH

text \<open>
  \<^verbatim>\<open>parse_value\<close> (lines 360-424) creates the node and runs its state machine, which is
  \<open>parse_value_loop\<close>: one call for each test of the \<^verbatim>\<open>while\<close> condition, with the state,
  the cursor and the node. \<^verbatim>\<open>parse_object\<close> (lines 265-314) and \<^verbatim>\<open>parse_array\<close> (lines
  316-353) run their loops, \<open>parse_object_loop\<close> and \<open>parse_array_loop\<close>, on the members
  read so far, then drop the closing bracket and set the type. In \<open>parse_object_loop\<close> the
  key of the member is the string of \<open>name\<close>; the branch for a name without a string is
  never taken, since the type of \<open>name\<close> was tested before.
\<close>

function
    parse_value :: "string \<Rightarrow> string option \<Rightarrow> (string \<times> pa_json_object) option"
and parse_value_loop ::
      "json_parser_state \<Rightarrow> string \<Rightarrow> string option \<Rightarrow> pa_json_object \<Rightarrow> (string \<times> pa_json_object) option"
and parse_object :: "string \<Rightarrow> pa_json_object \<Rightarrow> (string \<times> pa_json_object) option"
and parse_object_loop ::
      "string \<Rightarrow> (string \<times> pa_json_object) list \<Rightarrow> (string \<times> (string \<times> pa_json_object) list) option"
and parse_array :: "string \<Rightarrow> pa_json_object \<Rightarrow> (string \<times> pa_json_object) option"
and parse_array_loop ::
      "string \<Rightarrow> pa_json_object list \<Rightarrow> (string \<times> pa_json_object list) option"
where
  "parse_value str end = parse_value_loop JSON_PARSER_STATE_INIT str end json_object_new"
| "parse_value_loop state str end obj =
     (if \<not> is_end (peek str) end then
        (case state of
           JSON_PARSER_STATE_INIT \<Rightarrow>
             (if is_whitespace (peek str) then
                parse_value_loop JSON_PARSER_STATE_INIT (tl str) end obj
              else if peek str = CHR ''n'' then
                (case parse_null str obj of None \<Rightarrow> None
                 | Some (str', obj') \<Rightarrow> parse_value_loop JSON_PARSER_STATE_FINISH str' end obj')
              else if peek str = CHR ''t'' \<or> peek str = CHR ''f'' then
                (case parse_boolean str obj of None \<Rightarrow> None
                 | Some (str', obj') \<Rightarrow> parse_value_loop JSON_PARSER_STATE_FINISH str' end obj')
              else if peek str = CHR 0x22 then
                (case parse_string str obj of None \<Rightarrow> None
                 | Some (str', obj') \<Rightarrow> parse_value_loop JSON_PARSER_STATE_FINISH str' end obj')
              else if is_digit (peek str) \<or> peek str = CHR ''-'' then
                (case parse_number str obj of None \<Rightarrow> None
                 | Some (str', obj') \<Rightarrow> parse_value_loop JSON_PARSER_STATE_FINISH str' end obj')
              else if peek str = CHR ''{'' then
                (case parse_object str obj of None \<Rightarrow> None
                 | Some (str', obj') \<Rightarrow> parse_value_loop JSON_PARSER_STATE_FINISH str' end obj')
              else if peek str = CHR ''['' then
                (case parse_array str obj of None \<Rightarrow> None
                 | Some (str', obj') \<Rightarrow> parse_value_loop JSON_PARSER_STATE_FINISH str' end obj')
              else None)
         | JSON_PARSER_STATE_FINISH \<Rightarrow>
             (if is_whitespace (peek str) then
                parse_value_loop JSON_PARSER_STATE_FINISH (tl str) end obj
              else None))
      else if JSON_OBJECT_TYPE obj = PA_JSON_TYPE_INIT then None
      else Some (str, obj))"
| "parse_object str obj =
     (case parse_object_loop str [] of None \<Rightarrow> None
      | Some (str', object_values) \<Rightarrow> Some (tl str', set_payload obj (V_OBJECT object_values)))"
| "parse_object_loop str object_values =
     (if peek str \<noteq> CHR ''}'' then
        (case parse_value (tl str) (Some '':'') of None \<Rightarrow> None
         | Some (str1, name) \<Rightarrow>
             if JSON_OBJECT_TYPE name \<noteq> PA_JSON_TYPE_STRING then None
             else
               (case parse_value (tl str1) (Some '',}'') of None \<Rightarrow> None
                | Some (str2, val) \<Rightarrow>
                    (case pa_json_object_get_string name of None \<Rightarrow> None
                     | Some key \<Rightarrow>
                         parse_object_loop str2 (pa_hashmap_put object_values key val))))
      else Some (str, object_values))"
| "parse_array str obj =
     (case parse_array_loop str [] of None \<Rightarrow> None
      | Some (str', array_values) \<Rightarrow> Some (tl str', set_payload obj (V_ARRAY array_values)))"
| "parse_array_loop str array_values =
     (if peek str \<noteq> CHR '']'' then
        (if peek (skip_whitespace (tl str)) = CHR '']'' then
           Some (skip_whitespace (tl str), array_values)
         else
           (case parse_value (skip_whitespace (tl str)) (Some '',]'') of None \<Rightarrow> None
            | Some (str', val) \<Rightarrow> parse_array_loop str' (pa_idxset_put array_values val)))
      else Some (str, array_values))"
  by pat_completeness auto

subsection \<open>Termination of the value parser\<close>

text \<open>
  The parser calls itself on the cursor that an inner call returned, so its termination
  rests on a fact about its results: a production returns a cursor that is strictly
  shorter than the one it was given. This is proved first for the literal productions, then
  for the mutually recursive functions on their domain.
\<close>

declare parse_string_loop.simps [simp del]

declare parse_number_integer.simps [simp del]

declare parse_number_fraction.simps [simp del]

declare parse_number_exponent.simps [simp del]

lemma length_tl_le: "length (tl s) \<le> length s"
  by (cases s) simp_all

lemma consume_string_length: "consume_string str expect = Some str' \<Longrightarrow> length str' \<le> length str"
proof (induction expect arbitrary: str)
  case Nil
  then show ?case by simp
next
  case (Cons e expect)
  show ?case
  proof (cases "e = CHR 0x00 \<or> peek str \<noteq> e")
    case True
    with Cons.prems show ?thesis by (auto split: if_splits)
  next
    case False
    with Cons.prems have "consume_string (tl str) expect = Some str'" by simp
    from Cons.IH [OF this] show ?thesis using length_tl_le [of str] by linarith
  qed
qed

lemma consume_string_length_strict:
  assumes "consume_string str (e # expect) = Some str'" and "e \<noteq> CHR 0x00"
  shows "length str' < length str"
proof -
  from assms have p: "peek str = e" and c: "consume_string (tl str) expect = Some str'"
    by (auto split: if_splits)
  from p assms(2) have "length (tl str) < length str" by (intro peek_tl_length) simp
  with consume_string_length [OF c] show ?thesis by linarith
qed

lemma parse_null_length: "parse_null str obj = Some (str', obj') \<Longrightarrow> length str' < length str"
  unfolding parse_null_def
  by (auto simp del: consume_string.simps split: option.splits dest!: consume_string_length_strict)

lemma parse_boolean_length: "parse_boolean str obj = Some (str', obj') \<Longrightarrow> length str' < length str"
  unfolding parse_boolean_def
  by (auto simp del: consume_string.simps split: option.splits dest!: consume_string_length_strict)

lemma parse_string_loop_quote:
  "peek str = CHR 0x22 \<Longrightarrow> parse_string_loop str buf = Some (tl str, buf)"
  by (subst parse_string_loop.simps) simp

lemma parse_string_loop_plain:
  "peek str \<noteq> CHR 0x22 \<Longrightarrow> peek str \<noteq> CHR 0x5C \<Longrightarrow>
   parse_string_loop str buf =
     (if (of_char (peek str) :: nat) < 0x20 \<or> (of_char (peek str) :: nat) > 0x7E then None
      else parse_string_loop (tl str) (buf @ [peek str]))"
  by (subst parse_string_loop.simps) simp

lemma parse_string_loop_escape:
  "peek str = CHR 0x5C \<Longrightarrow>
   parse_string_loop str buf =
     (case unescape (peek (tl str)) of None \<Rightarrow> None
      | Some c \<Rightarrow> parse_string_loop (tl (tl str)) (buf @ [c]))"
  by (subst parse_string_loop.simps) (simp add: unescape_def)

lemma parse_string_loop_length:
  "parse_string_loop str buf = Some (str', buf') \<Longrightarrow> length str' < length str"
proof (induction "length str" arbitrary: str buf rule: less_induct)
  case less
  have t: "length (tl str) \<le> length str" "length (tl (tl str)) \<le> length (tl str)"
    using length_tl_le [of str] length_tl_le [of "tl str"] by linarith+
  show ?case
  proof (cases "peek str = CHR 0x22")
    case True
    with less.prems have "str' = tl str" by (simp add: parse_string_loop_quote)
    moreover from True have "length (tl str) < length str" by (intro peek_tl_length) simp
    ultimately show ?thesis by simp
  next
    case nq: False
    show ?thesis
    proof (cases "peek str = CHR 0x5C")
      case False
      with nq less.prems have
        c: "parse_string_loop (tl str) (buf @ [peek str]) = Some (str', buf')"
        by (simp add: parse_string_loop_plain split: if_splits)
      from less.prems have "str \<noteq> []"
        by (auto simp: parse_string_loop_plain peek_def)
      then have l: "length (tl str) < length str" by (cases str) simp_all
      from less.hyps [OF l c] l show ?thesis by linarith
    next
      case True
      then have l: "length (tl str) < length str" by (intro peek_tl_length) simp
      from True less.prems obtain c where
        c: "parse_string_loop (tl (tl str)) (buf @ [c]) = Some (str', buf')"
          and u: "unescape (peek (tl str)) = Some c"
        by (auto simp: parse_string_loop_escape split: option.splits)
      from u have "peek (tl str) \<noteq> CHR 0x00" by (auto simp: unescape_def)
      then have "length (tl (tl str)) < length (tl str)" by (rule peek_tl_length)
      with l have l2: "length (tl (tl str)) < length str" by linarith
      from less.hyps [OF l2 c] l2 show ?thesis by linarith
    qed
  qed
qed

lemma parse_string_length: "parse_string str obj = Some (str', obj') \<Longrightarrow> length str' < length str"
  unfolding parse_string_def
  using length_tl_le [of str]
  by (auto split: option.splits dest!: parse_string_loop_length)

lemma parse_number_integer_digit:
  "is_digit (peek str) \<Longrightarrow>
   parse_number_integer str i = parse_number_integer (tl str) (i * 10 + of_nat (digit_val (peek str)))"
  by (subst parse_number_integer.simps) simp

lemma parse_number_integer_stop:
  "\<not> is_digit (peek str) \<Longrightarrow> parse_number_integer str i = (str, i)"
  by (subst parse_number_integer.simps) simp

lemma parse_number_fraction_digit:
  "is_digit (peek str) \<Longrightarrow>
   parse_number_fraction str f d =
     parse_number_fraction (tl str) (f * 10 + of_nat (digit_val (peek str))) (d + 1)"
  by (subst parse_number_fraction.simps) simp

lemma parse_number_fraction_stop:
  "\<not> is_digit (peek str) \<Longrightarrow> parse_number_fraction str f d = (str, f, d)"
  by (subst parse_number_fraction.simps) simp

lemma parse_number_exponent_digit:
  "is_digit (peek str) \<Longrightarrow>
   parse_number_exponent str e = parse_number_exponent (tl str) (e * 10 + of_nat (digit_val (peek str)))"
  by (subst parse_number_exponent.simps) simp

lemma parse_number_exponent_stop:
  "\<not> is_digit (peek str) \<Longrightarrow> parse_number_exponent str e = (str, e)"
  by (subst parse_number_exponent.simps) simp

lemma parse_number_integer_length:
  "parse_number_integer str i = (str', i') \<Longrightarrow> length str' \<le> length str"
proof (induction str arbitrary: i)
  case Nil
  then show ?case by (simp add: parse_number_integer_stop peek_def is_digit_def)
next
  case (Cons c str)
  show ?case
  proof (cases "is_digit c")
    case True
    with Cons.prems have "parse_number_integer str (i * 10 + of_nat (digit_val c)) = (str', i')"
      by (simp add: parse_number_integer_digit peek_def)
    from Cons.IH [OF this] show ?thesis by simp
  next
    case False
    with Cons.prems show ?thesis by (simp add: parse_number_integer_stop peek_def)
  qed
qed

lemma parse_number_fraction_length:
  "parse_number_fraction str f d = (str', f', d') \<Longrightarrow> length str' \<le> length str"
proof (induction str arbitrary: f d)
  case Nil
  then show ?case by (simp add: parse_number_fraction_stop peek_def is_digit_def)
next
  case (Cons c str)
  show ?case
  proof (cases "is_digit c")
    case True
    with Cons.prems have
      "parse_number_fraction str (f * 10 + of_nat (digit_val c)) (d + 1) = (str', f', d')"
      by (simp add: parse_number_fraction_digit peek_def)
    from Cons.IH [OF this] show ?thesis by simp
  next
    case False
    with Cons.prems show ?thesis by (simp add: parse_number_fraction_stop peek_def)
  qed
qed

lemma parse_number_exponent_length:
  "parse_number_exponent str e = (str', e') \<Longrightarrow> length str' \<le> length str"
proof (induction str arbitrary: e)
  case Nil
  then show ?case by (simp add: parse_number_exponent_stop peek_def is_digit_def)
next
  case (Cons c str)
  show ?case
  proof (cases "is_digit c")
    case True
    with Cons.prems have "parse_number_exponent str (e * 10 + of_nat (digit_val c)) = (str', e')"
      by (simp add: parse_number_exponent_digit peek_def)
    from Cons.IH [OF this] show ?thesis by simp
  next
    case False
    with Cons.prems show ?thesis by (simp add: parse_number_exponent_stop peek_def)
  qed
qed

lemma parse_number_length:
  assumes "parse_number str obj = Some (str', obj')"
  shows "length str' \<le> length str"
    and "is_digit (peek str) \<or> peek str = CHR ''-'' \<Longrightarrow> length str' < length str"
proof -
  define str1 where "str1 = (if peek str = CHR ''-'' then tl str else str)"
  obtain str2 integer where
    r2: "(if peek str1 = CHR ''0'' then (tl str1, 0) else parse_number_integer str1 0) = (str2, integer)"
    by (cases "if peek str1 = CHR ''0'' then (tl str1, 0) else parse_number_integer str1 0") auto
  obtain str3 fraction fraction_digits where
    r3: "(if peek str2 = CHR ''.'' then parse_number_fraction (tl str2) 0 0 else (str2, 0, 0))
          = (str3, fraction, fraction_digits)"
    by (cases "if peek str2 = CHR ''.'' then parse_number_fraction (tl str2) 0 0 else (str2, 0, 0)") auto
  define str3' where "str3' = (if peek (tl str3) = CHR ''-'' then tl (tl str3)
                              else if peek (tl str3) = CHR ''+'' then tl (tl str3)
                              else tl str3)"
  obtain str4 exponent where r4: "parse_number_exponent str3' 0 = (str4, exponent)"
    by (cases "parse_number_exponent str3' 0") auto
  have res: "str' = (if peek str3 = CHR ''e'' \<or> peek str3 = CHR ''E'' then str4 else str3)"
    using assms r2 r3 r4
    by (auto simp: parse_number_def Let_def str1_def [symmetric] str3'_def [symmetric]
             split: if_splits)
  have l1: "length str1 \<le> length str"
    using length_tl_le [of str] by (simp add: str1_def)
  have l2: "length str2 \<le> length str1"
    using r2 length_tl_le [of str1] parse_number_integer_length [of str1 0 str2 integer]
    by (auto split: if_splits)
  have l3: "length str3 \<le> length str2"
    using r3 length_tl_le [of str2]
      parse_number_fraction_length [of "tl str2" 0 0 str3 fraction fraction_digits]
    by (auto split: if_splits)
  have "length str3' \<le> length str3"
    using length_tl_le [of str3] length_tl_le [of "tl str3"] by (auto simp: str3'_def)
  with parse_number_exponent_length [OF r4] have l4: "length str4 \<le> length str3" by linarith
  from res l1 l2 l3 l4 show "length str' \<le> length str" by (auto split: if_splits)
  assume d: "is_digit (peek str) \<or> peek str = CHR ''-''"
  have "length str2 < length str"
  proof (cases "peek str = CHR ''-''")
    case True
    then have "length (tl str) < length str" by (intro peek_tl_length) simp
    with True l2 show ?thesis by (simp add: str1_def)
  next
    case False
    with d have dg: "is_digit (peek str)" and s1: "str1 = str" by (simp_all add: str1_def)
    from dg have nz: "peek str \<noteq> CHR 0x00" by (auto simp: is_digit_def)
    then have lt: "length (tl str) < length str" by (rule peek_tl_length)
    show ?thesis
    proof (cases "peek str = CHR ''0''")
      case True
      with r2 s1 lt show ?thesis by simp
    next
      case False
      with r2 s1 dg have
        "parse_number_integer (tl str) (0 * 10 + of_nat (digit_val (peek str))) = (str2, integer)"
        by (simp add: parse_number_integer_digit)
      from parse_number_integer_length [OF this] lt show ?thesis by linarith
    qed
  qed
  with res l3 l4 show "length str' < length str" by (auto split: if_splits)
qed

lemma skip_whitespace_length: "length (skip_whitespace str) \<le> length str"
  by (induction str) auto

abbreviation (input) parser_dom where "parser_dom \<equiv>
  parse_value_parse_value_loop_parse_object_parse_object_loop_parse_array_parse_array_loop_dom"

lemmas parser_pinduct =
  parse_value_parse_value_loop_parse_object_parse_object_loop_parse_array_parse_array_loop.pinduct

lemma parser_length_partial:
  "parser_dom (Inl (Inl (str, end))) \<Longrightarrow>
     (\<forall>str' v. parse_value str end = Some (str', v) \<longrightarrow> length str' < length str)"
  "parser_dom (Inl (Inr (Inl (state, str, end, obj)))) \<Longrightarrow>
     (\<forall>str' v. parse_value_loop state str end obj = Some (str', v) \<longrightarrow>
        length str' \<le> length str \<and>
        (state = JSON_PARSER_STATE_INIT \<and> JSON_OBJECT_TYPE obj = PA_JSON_TYPE_INIT
           \<longrightarrow> length str' < length str))"
  "parser_dom (Inl (Inr (Inr (str, obj)))) \<Longrightarrow>
     (\<forall>str' v. parse_object str obj = Some (str', v) \<longrightarrow> length str' < length str)"
  "parser_dom (Inr (Inl (str, object_values))) \<Longrightarrow>
     (\<forall>str' h. parse_object_loop str object_values = Some (str', h) \<longrightarrow>
        length str' \<le> length str \<and> peek str' = CHR ''}'')"
  "parser_dom (Inr (Inr (Inl (str, obj)))) \<Longrightarrow>
     (\<forall>str' v. parse_array str obj = Some (str', v) \<longrightarrow> length str' < length str)"
  "parser_dom (Inr (Inr (Inr (str, array_values)))) \<Longrightarrow>
     (\<forall>str' a. parse_array_loop str array_values = Some (str', a) \<longrightarrow>
        length str' \<le> length str \<and> peek str' = CHR '']'')"
proof (induction rule: parser_pinduct)
  case (1 str "end")
  then show ?case
    by (simp add: parse_value.psimps json_object_new_def)
next
  case (2 state str "end" obj)
  note ps = parse_value_loop.psimps [OF "2.hyps"]
  show ?case
  proof (intro allI impI)
    fix str' v assume a0: "parse_value_loop state str end obj = Some (str', v)"
    note a = a0 [unfolded ps]
    show "length str' \<le> length str \<and>
        (state = JSON_PARSER_STATE_INIT \<and> JSON_OBJECT_TYPE obj = PA_JSON_TYPE_INIT
           \<longrightarrow> length str' < length str)"
    proof (cases "is_end (peek str) end")
      case True
      with a show ?thesis by (simp split: if_splits)
    next
      case ne: False
      show ?thesis
      proof (cases "is_whitespace (peek str)")
        case ws: True
        then have "peek str \<noteq> CHR 0x00" by (auto simp: is_whitespace_def)
        then have lt: "length (tl str) < length str" by (rule peek_tl_length)
        from a ne ws have "parse_value_loop state (tl str) end obj = Some (str', v)"
          by (cases state) simp_all
        with "2.IH"(1) [OF ne _ ws] "2.IH"(10) [OF ne _ ws]
        have "length str' \<le> length (tl str)" by (cases state) auto
        with lt show ?thesis by simp
      next
        case nws: False
        from a ne nws have st: "state = JSON_PARSER_STATE_INIT"
          by (cases state) simp_all
        note ih = "2.IH"(2-9) [OF ne st nws]
        have "length str' < length str"
        proof (cases "peek str = CHR ''n''")
          case c: True
          with a ne nws st obtain x y where p: "parse_null str obj = Some (x, y)"
            and f: "parse_value_loop JSON_PARSER_STATE_FINISH x end y = Some (str', v)"
            by (auto split: option.splits)
          from ih(1) [OF c p refl] f have "length str' \<le> length x" by simp
          with parse_null_length [OF p] show ?thesis by simp
        next
          case n1: False
          show ?thesis
          proof (cases "peek str = CHR ''t'' \<or> peek str = CHR ''f''")
            case c: True
            with a ne nws st n1 obtain x y where p: "parse_boolean str obj = Some (x, y)"
              and f: "parse_value_loop JSON_PARSER_STATE_FINISH x end y = Some (str', v)"
              by (auto split: option.splits)
            from ih(2) [OF n1 c p refl] f have "length str' \<le> length x" by simp
            with parse_boolean_length [OF p] show ?thesis by simp
          next
            case n2: False
            show ?thesis
            proof (cases "peek str = CHR 0x22")
              case c: True
              with a ne nws st n1 n2 obtain x y where p: "parse_string str obj = Some (x, y)"
                and f: "parse_value_loop JSON_PARSER_STATE_FINISH x end y = Some (str', v)"
                by (auto split: option.splits)
              from ih(3) [OF n1 n2 c p refl] f have "length str' \<le> length x" by simp
              with parse_string_length [OF p] show ?thesis by simp
            next
              case n3: False
              show ?thesis
              proof (cases "is_digit (peek str) \<or> peek str = CHR ''-''")
                case c: True
                with a ne nws st n1 n2 n3 obtain x y where p: "parse_number str obj = Some (x, y)"
                  and f: "parse_value_loop JSON_PARSER_STATE_FINISH x end y = Some (str', v)"
                  by (auto split: option.splits)
                from ih(4) [OF n1 n2 n3 c p refl] f have "length str' \<le> length x" by simp
                with parse_number_length(2) [OF p c] show ?thesis by simp
              next
                case n4: False
                show ?thesis
                proof (cases "peek str = CHR ''{''")
                  case c: True
                  with a ne nws st n1 n2 n3 n4 obtain x y where p: "parse_object str obj = Some (x, y)"
                    and f: "parse_value_loop JSON_PARSER_STATE_FINISH x end y = Some (str', v)"
                    by (auto split: option.splits)
                  from ih(6) [OF n1 n2 n3 n4 c p refl] f have "length str' \<le> length x" by simp
                  moreover from ih(5) [OF n1 n2 n3 n4 c] p have "length x < length str" by simp
                  ultimately show ?thesis by simp
                next
                  case n5: False
                  with a ne nws st n1 n2 n3 n4 have c: "peek str = CHR ''[''"
                    by (auto split: if_splits)
                  with a ne nws st n1 n2 n3 n4 n5 obtain x y where p: "parse_array str obj = Some (x, y)"
                    and f: "parse_value_loop JSON_PARSER_STATE_FINISH x end y = Some (str', v)"
                    by (auto split: option.splits)
                  from ih(8) [OF n1 n2 n3 n4 n5 c p refl] f have "length str' \<le> length x" by simp
                  moreover from ih(7) [OF n1 n2 n3 n4 n5 c] p have "length x < length str" by simp
                  ultimately show ?thesis by simp
                qed
              qed
            qed
          qed
        qed
        then show ?thesis by simp
      qed
    qed
  qed
next
  case (3 str obj)
  show ?case
  proof (intro allI impI)
    fix str' v assume a: "parse_object str obj = Some (str', v)"
    then obtain s1 h where l: "parse_object_loop str [] = Some (s1, h)" and s: "str' = tl s1"
      using "3.hyps" by (auto simp: parse_object.psimps split: option.splits)
    from "3.IH" l have "length s1 \<le> length str" "peek s1 = CHR ''}''" by auto
    moreover from this(2) have "length (tl s1) < length s1" by (intro peek_tl_length) simp
    ultimately show "length str' < length str" using s by simp
  qed
next
  case (4 str object_values)
  note ps = parse_object_loop.psimps [OF "4.hyps"]
  show ?case
  proof (intro allI impI)
    fix str' h assume a: "parse_object_loop str object_values = Some (str', h)"
    show "length str' \<le> length str \<and> peek str' = CHR ''}''"
    proof (cases "peek str = CHR ''}''")
      case True
      with a show ?thesis by (simp add: ps)
    next
      case c: False
      with a obtain str1 name str2 val key where
        p1: "parse_value (tl str) (Some '':'') = Some (str1, name)"
        and ty: "\<not> JSON_OBJECT_TYPE name \<noteq> PA_JSON_TYPE_STRING"
        and p2: "parse_value (tl str1) (Some '',}'') = Some (str2, val)"
        and k: "pa_json_object_get_string name = Some key"
        and r: "parse_object_loop str2 (pa_hashmap_put object_values key val) = Some (str', h)"
        by (auto simp: ps split: option.splits if_splits)
      from "4.IH"(1) [OF c] p1 have l1: "length str1 < length (tl str)" by simp
      from "4.IH"(2) [OF c p1 refl ty] p2 have l2: "length str2 < length (tl str1)" by simp
      from "4.IH"(3) [OF c p1 refl ty p2 refl k] r
      have "length str' \<le> length str2" "peek str' = CHR ''}''" by simp_all
      with l1 l2 length_tl_le [of str] length_tl_le [of str1] show ?thesis by simp
    qed
  qed
next
  case (5 str obj)
  show ?case
  proof (intro allI impI)
    fix str' v assume a: "parse_array str obj = Some (str', v)"
    then obtain s1 h where l: "parse_array_loop str [] = Some (s1, h)" and s: "str' = tl s1"
      using "5.hyps" by (auto simp: parse_array.psimps split: option.splits)
    from "5.IH" l have "length s1 \<le> length str" "peek s1 = CHR '']''" by auto
    moreover from this(2) have "length (tl s1) < length s1" by (intro peek_tl_length) simp
    ultimately show "length str' < length str" using s by simp
  qed
next
  case (6 str array_values)
  note ps = parse_array_loop.psimps [OF "6.hyps"]
  show ?case
  proof (intro allI impI)
    fix str' h assume a: "parse_array_loop str array_values = Some (str', h)"
    show "length str' \<le> length str \<and> peek str' = CHR '']''"
    proof (cases "peek str = CHR '']''")
      case True
      with a show ?thesis by (simp add: ps)
    next
      case c: False
      have l0: "length (skip_whitespace (tl str)) \<le> length str"
        using skip_whitespace_length [of "tl str"] length_tl_le [of str] by simp
      show ?thesis
      proof (cases "peek (skip_whitespace (tl str)) = CHR '']''")
        case True
        with a c l0 show ?thesis by (simp add: ps)
      next
        case c2: False
        with a c obtain str1 val where
          p1: "parse_value (skip_whitespace (tl str)) (Some '',]'') = Some (str1, val)"
          and r: "parse_array_loop str1 (pa_idxset_put array_values val) = Some (str', h)"
          by (auto simp: ps split: option.splits)
        from "6.IH"(1) [OF c c2] p1 have "length str1 < length (skip_whitespace (tl str))" by simp
        moreover from "6.IH"(2) [OF c c2 p1 refl] r
        have "length str' \<le> length str1" "peek str' = CHR '']''" by simp_all
        ultimately show ?thesis using l0 by simp
      qed
    qed
  qed
qed

text \<open>
  The measure: eight times the length of the cursor, plus a rank that orders the functions
  called on the same cursor. The loops of \<^verbatim>\<open>parse_object\<close> and \<^verbatim>\<open>parse_array\<close> step over
  their first character without looking at it, so on the empty cursor (which the parser
  never passes to them) their rank is above that of \<^verbatim>\<open>parse_value\<close>.
\<close>

definition rank_loop :: "string \<Rightarrow> nat" where
  "rank_loop str = (if str = [] then 6 else 8 * length str + 2)"

definition rank_prod :: "string \<Rightarrow> nat" where
  "rank_prod str = (if str = [] then 7 else 8 * length str + 3)"

lemma rank_loop_bound: "rank_loop str \<le> 8 * length str + 6"
  by (simp add: rank_loop_def)

lemma tl_measure: "str \<noteq> [] \<Longrightarrow> 8 * length (tl str) + 8 = 8 * length str"
  by (cases str) simp_all

termination parse_value
proof (relation "measure
   (case_sum
     (case_sum (\<lambda>(str, end). 8 * length str + 5)
       (case_sum (\<lambda>(state, str, end, obj). 8 * length str +
                     (case state of JSON_PARSER_STATE_INIT \<Rightarrow> 4 | JSON_PARSER_STATE_FINISH \<Rightarrow> 0))
                 (\<lambda>(str, obj). rank_prod str)))
     (case_sum (\<lambda>(str, h). rank_loop str)
       (case_sum (\<lambda>(str, obj). rank_prod str) (\<lambda>(str, a). rank_loop str))))", goal_cases)
  case 1
  then show ?case by simp
next
  case (2 str "end")
  then show ?case by simp
next
  case (3 state str "end" obj)
  from 3(3) have "str \<noteq> []" by (auto simp: is_whitespace_def peek_def)
  then show ?case using tl_measure [of str] by simp
next
  case (4 state str "end" obj x2 x y)
  then have "length x < length str" using parse_null_length [of str obj x y] by simp
  with 4 show ?case by simp
next
  case (5 state str "end" obj x2 x y)
  then have "length x < length str" using parse_boolean_length [of str obj x y] by simp
  with 5 show ?case by simp
next
  case (6 state str "end" obj x2 x y)
  then have "length x < length str" using parse_string_length [of str obj x y] by simp
  with 6 show ?case by simp
next
  case (7 state str "end" obj x2 x y)
  then have "length x \<le> length str" using parse_number_length(1) [of str obj x y] by simp
  with 7 show ?case by simp
next
  case (8 state str "end" obj)
  then have "str \<noteq> []" by (auto simp: peek_def)
  with 8 show ?case by (simp add: rank_prod_def)
next
  case (9 state str "end" obj x2 x y)
  then have "length x < length str" using parser_length_partial(3) [of str obj] by auto
  with 9 show ?case by simp
next
  case (10 state str "end" obj)
  then have "str \<noteq> []" by (auto simp: peek_def)
  with 10 show ?case by (simp add: rank_prod_def)
next
  case (11 state str "end" obj x2 x y)
  then have "length x < length str" using parser_length_partial(5) [of str obj] by auto
  with 11 show ?case by simp
next
  case (12 state str "end" obj)
  from 12(3) have "str \<noteq> []" by (auto simp: is_whitespace_def peek_def)
  with 12 show ?case using tl_measure [of str] by simp
next
  case (13 str obj)
  then show ?case by (simp add: rank_prod_def rank_loop_def)
next
  case (14 str object_values)
  then show ?case using tl_measure [of str] by (cases "str = []") (simp_all add: rank_loop_def)
next
  case (15 str object_values x2 x y)
  then have l: "length x < length (tl str)"
    using parser_length_partial(1) [of "tl str" "Some '':''"] by auto
  then have "str \<noteq> []" by auto
  with l length_tl_le [of x] show ?case using tl_measure [of str]
    by (simp add: rank_loop_def)
next
  case (16 str object_values x2 x y x2a xa ya x2b)
  then have l: "length x < length (tl str)"
    using parser_length_partial(1) [of "tl str" "Some '':''"] by auto
  from 16 have l2: "length xa < length (tl x)"
    using parser_length_partial(1) [of "tl x" "Some '',}''"] by auto
  from l have "str \<noteq> []" by auto
  with l l2 length_tl_le [of x] rank_loop_bound [of xa] show ?case using tl_measure [of str]
    by (simp add: rank_loop_def)
next
  case (17 str obj)
  then show ?case by (simp add: rank_prod_def rank_loop_def)
next
  case (18 str array_values)
  then show ?case using tl_measure [of str] skip_whitespace_length [of "tl str"]
    by (cases "str = []") (simp_all add: rank_loop_def)
next
  case (19 str array_values x2 x y)
  then have l: "length x < length (skip_whitespace (tl str))"
    using parser_length_partial(1) [of "skip_whitespace (tl str)" "Some '',]''"] by auto
  with skip_whitespace_length [of "tl str"] have "str \<noteq> []" by auto
  with l skip_whitespace_length [of "tl str"] rank_loop_bound [of x] show ?case
    using tl_measure [of str] by (simp add: rank_loop_def)
qed

declare parse_value.simps [simp del]

declare parse_value_loop.simps [simp del]

declare parse_object.simps [simp del]

declare parse_object_loop.simps [simp del]

declare parse_array.simps [simp del]

declare parse_array_loop.simps [simp del]

subsection \<open>The entry point and the typed accessors\<close>

text \<open>
\<^verbatim>\<open>pa_json_parse\<close> (lines 427-444).
\<close>

definition pa_json_parse :: "string \<Rightarrow> pa_json_object option" where
  "pa_json_parse str =
     (case parse_value str None of
        None \<Rightarrow> None
      | Some (str', obj) \<Rightarrow> if peek str' \<noteq> CHR 0x00 then None else Some obj)"

text \<open>
  The accessors (lines 446-514) take a \<^verbatim>\<open>const pa_json_object *\<close> and are pure functions
  of the value. Each guards its payload with \<^verbatim>\<open>pa_return_val_if_fail\<close>, which returns the
  given default when the type does not match. A returned pointer is an option.
\<close>

fun pa_json_object_get_type :: "pa_json_object \<Rightarrow> pa_json_type" where
  "pa_json_object_get_type obj = JSON_OBJECT_TYPE obj"

fun pa_json_object_get_int :: "pa_json_object \<Rightarrow> int" where
  "pa_json_object_get_int (JSON r (V_INT i)) = i"
| "pa_json_object_get_int _ = 0"

fun pa_json_object_get_double :: "pa_json_object \<Rightarrow> real" where
  "pa_json_object_get_double (JSON r (V_DOUBLE d)) = d"
| "pa_json_object_get_double _ = 0"

fun pa_json_object_get_bool :: "pa_json_object \<Rightarrow> bool" where
  "pa_json_object_get_bool (JSON r (V_BOOL b)) = b"
| "pa_json_object_get_bool _ = False"

fun pa_json_object_get_object_member :: "pa_json_object \<Rightarrow> string \<Rightarrow> pa_json_object option" where
  "pa_json_object_get_object_member (JSON r (V_OBJECT object_values)) name =
     pa_hashmap_get object_values name"
| "pa_json_object_get_object_member _ name = None"

fun pa_json_object_get_array_length :: "pa_json_object \<Rightarrow> int" where
  "pa_json_object_get_array_length (JSON r (V_ARRAY array_values)) =
     int (pa_idxset_size array_values)"
| "pa_json_object_get_array_length _ = 0"

text \<open>
The \<^verbatim>\<open>int index\<close> is converted to the unsigned 32-bit index of the idxset.
\<close>

fun pa_json_object_get_array_member :: "pa_json_object \<Rightarrow> int \<Rightarrow> pa_json_object option" where
  "pa_json_object_get_array_member (JSON r (V_ARRAY array_values)) index =
     pa_idxset_get_by_index array_values (nat (index mod 2 ^ 32))"
| "pa_json_object_get_array_member _ index = None"

section \<open>Notions for stating the properties\<close>

text \<open>
  The dispatch on the lookahead character that the INIT state of \<^verbatim>\<open>parse_value\<close> performs
  (lines 373-394): one production for each leading character, failure for any other.
\<close>

definition production :: "string \<Rightarrow> pa_json_object \<Rightarrow> (string \<times> pa_json_object) option" where
  "production str obj =
     (if peek str = CHR ''n'' then parse_null str obj
      else if peek str = CHR ''t'' \<or> peek str = CHR ''f'' then parse_boolean str obj
      else if peek str = CHR 0x22 then parse_string str obj
      else if is_digit (peek str) \<or> peek str = CHR ''-'' then parse_number str obj
      else if peek str = CHR ''{'' then parse_object str obj
      else if peek str = CHR ''['' then parse_array str obj
      else None)"

text \<open>
  The iterations of the loop of \<^verbatim>\<open>parse_object\<close>: \<open>object_iteration str0 h0 str h\<close> holds
  when the loop started at \<open>str0\<close> with members \<open>h0\<close> reaches the loop head again at \<open>str\<close>
  with members \<open>h\<close>, after any number of key/value pairs read successfully.
\<close>

inductive object_iteration ::
  "string \<Rightarrow> (string \<times> pa_json_object) list \<Rightarrow> string \<Rightarrow> (string \<times> pa_json_object) list \<Rightarrow> bool" where
  start: "object_iteration str object_values str object_values"
| step: "object_iteration str0 h0 str object_values \<Longrightarrow>
         peek str \<noteq> CHR ''}'' \<Longrightarrow>
         parse_value (tl str) (Some '':'') = Some (str1, name) \<Longrightarrow>
         pa_json_object_get_string name = Some key \<Longrightarrow>
         parse_value (tl str1) (Some '',}'') = Some (str2, val) \<Longrightarrow>
         object_iteration str0 h0 str2 (pa_hashmap_put object_values key val)"

code_pred object_iteration .

text \<open>
  Number literals by their parts: the sign, the digits of the integer part, the digits of
  the fraction when there is one, and the exponent when there is one (its letter, its sign
  text and its digits). \<open>well_formed\<close> is the grammar of the spec: a single \<^verbatim>\<open>0\<close> or a
  non-empty digit run without a leading zero, and non-empty digit runs for fraction and
  exponent. \<open>integer_ok\<close>, \<open>fraction_ok\<close> and \<open>exponent_ok\<close> are the same without the demand
  that a digit run is non-empty. \<open>number_end\<close> holds of a character that cannot continue a
  number literal.
\<close>

datatype number_literal =
  Number_Literal (negative: bool) (integer_part: string) (fraction_part: "string option")
    (exponent_part: "(char \<times> string \<times> string) option")

fun fraction_text :: "string option \<Rightarrow> string" where
  "fraction_text None = []"
| "fraction_text (Some fs) = CHR ''.'' # fs"

fun exponent_text :: "(char \<times> string \<times> string) option \<Rightarrow> string" where
  "exponent_text None = []"
| "exponent_text (Some (e, sg, es)) = e # sg @ es"

fun literal_text :: "number_literal \<Rightarrow> string" where
  "literal_text (Number_Literal n ip fp ep) =
     (if n then ''-'' else []) @ ip @ fraction_text fp @ exponent_text ep"

definition integer_ok :: "string \<Rightarrow> bool" where
  "integer_ok ip \<longleftrightarrow> ip = ''0'' \<or> (list_all is_digit ip \<and> peek ip \<noteq> CHR ''0'')"

fun fraction_ok :: "string option \<Rightarrow> bool" where
  "fraction_ok None = True"
| "fraction_ok (Some fs) = list_all is_digit fs"

fun exponent_ok :: "(char \<times> string \<times> string) option \<Rightarrow> bool" where
  "exponent_ok None = True"
| "exponent_ok (Some (e, sg, es)) =
     ((e = CHR ''e'' \<or> e = CHR ''E'') \<and> (sg = [] \<or> sg = ''+'' \<or> sg = ''-'') \<and> list_all is_digit es)"

fun well_formed :: "number_literal \<Rightarrow> bool" where
  "well_formed (Number_Literal n ip fp ep) \<longleftrightarrow>
     (ip = ''0'' \<or> (ip \<noteq> [] \<and> list_all is_digit ip \<and> peek ip \<noteq> CHR ''0'')) \<and>
     (case fp of None \<Rightarrow> True | Some fs \<Rightarrow> fs \<noteq> [] \<and> list_all is_digit fs) \<and>
     (case ep of None \<Rightarrow> True
      | Some (e, sg, es) \<Rightarrow>
          (e = CHR ''e'' \<or> e = CHR ''E'') \<and> (sg = [] \<or> sg = ''+'' \<or> sg = ''-'') \<and>
          es \<noteq> [] \<and> list_all is_digit es)"

definition number_end :: "char \<Rightarrow> bool" where
  "number_end c \<longleftrightarrow> \<not> is_digit c \<and> c \<noteq> CHR ''.'' \<and> c \<noteq> CHR ''e'' \<and> c \<noteq> CHR ''E'' \<and>
     c \<noteq> CHR ''+'' \<and> c \<noteq> CHR ''-''"

text \<open>
  The value of a digit run, and the reduction of an integer to the signed 32-bit range.
\<close>

definition decimal :: "string \<Rightarrow> nat" where
  "decimal ds = foldl (\<lambda>a c. a * 10 + digit_val c) 0 ds"

definition int32 :: "int \<Rightarrow> int" where
  "int32 k = (k + 2 ^ 31) mod 2 ^ 32 - 2 ^ 31"

text \<open>
  The value of a number literal in the words of the spec: a Double equal to
  \<open>sign * (integer + fraction / 10 ^ fraction_digit_count) * 10 ^ exponent\<close> when a fraction
  or an exponent is present, otherwise an Int equal to \<open>sign * integer\<close>; the accumulators
  are fixed-width counters that wrap, and the Int is a 32-bit signed integer.
\<close>

fun spec_number_value :: "number_literal \<Rightarrow> json_union" where
  "spec_number_value (Number_Literal n ip fp ep) =
     (let sign = (if n then - 1 else 1) :: int;
          integer = decimal ip mod 2 ^ 32;
          fraction = (case fp of None \<Rightarrow> 0 | Some fs \<Rightarrow> decimal fs mod 2 ^ 32);
          fraction_digit_count = (case fp of None \<Rightarrow> 0 | Some fs \<Rightarrow> length fs mod 2 ^ 32);
          exponent = (case ep of None \<Rightarrow> 0
                      | Some (e, sg, es) \<Rightarrow> int32 ((if sg = ''-'' then - 1 else 1) * int (decimal es)))
      in if fp \<noteq> None \<or> ep \<noteq> None
         then V_DOUBLE (real_of_int sign * (real integer + real fraction / 10 ^ fraction_digit_count)
                          * 10 powi exponent)
         else V_INT (int32 (sign * int integer)))"

text \<open>
  Object literals by their members. A member is the text of its key, the key, the text of
  its value and the value. \<open>parses_as_key\<close> says that the parser reads the key text, up to
  the colon that follows it, as a String with that content; \<open>parses_as_value\<close> says that the
  parser reads the value text, up to the comma or closing brace that follows it, as that
  value. \<open>plain_char\<close> holds of a character that may stand unescaped in a string.
\<close>

datatype member =
  Member (key_text: string) (member_key: string) (value_text: string) (member_value: pa_json_object)

definition parses_as_key :: "string \<Rightarrow> string \<Rightarrow> bool" where
  "parses_as_key kt k \<longleftrightarrow>
     (\<forall>rest. \<exists>name. parse_value (kt @ CHR '':'' # rest) (Some '':'') = Some (CHR '':'' # rest, name) \<and>
        pa_json_object_get_string name = Some k)"

definition parses_as_value :: "string \<Rightarrow> pa_json_object \<Rightarrow> bool" where
  "parses_as_value vt v \<longleftrightarrow>
     (\<forall>rest. parse_value (vt @ CHR '','' # rest) (Some '',}'') = Some (CHR '','' # rest, v) \<and>
        parse_value (vt @ CHR ''}'' # rest) (Some '',}'') = Some (CHR ''}'' # rest, v))"

fun member_ok :: "member \<Rightarrow> bool" where
  "member_ok (Member kt k vt v) \<longleftrightarrow> parses_as_key kt k \<and> parses_as_value vt v"

fun member_text :: "member \<Rightarrow> string" where
  "member_text (Member kt k vt v) = kt @ CHR '':'' # vt"

fun members_text :: "member list \<Rightarrow> string" where
  "members_text [] = []"
| "members_text [m] = member_text m"
| "members_text (m # ms) = member_text m @ CHR '','' # members_text ms"

definition object_text :: "member list \<Rightarrow> string" where
  "object_text ms = CHR ''{'' # members_text ms @ ''}''"

definition put_member :: "(string \<times> pa_json_object) list \<Rightarrow> member \<Rightarrow> (string \<times> pa_json_object) list" where
  "put_member h m = pa_hashmap_put h (member_key m) (member_value m)"

definition plain_char :: "char \<Rightarrow> bool" where
  "plain_char c \<longleftrightarrow> (0x20 :: nat) \<le> of_char c \<and> (of_char c :: nat) \<le> 0x7E \<and>
     c \<noteq> CHR 0x22 \<and> c \<noteq> CHR 0x5C"

text \<open>
  The body of a string literal as the grammar of the specification reads it: a sequence of
  items, each an unescaped character or a backslash with one escape character. \<open>item_char\<close>
  is the character the specification gives the item: the escaped character itself, or the
  control character for \<^verbatim>\<open>b\<close>, \<^verbatim>\<open>f\<close>, \<^verbatim>\<open>n\<close>, \<^verbatim>\<open>r\<close>, \<^verbatim>\<open>t\<close>. \<open>item_ok\<close> holds of the
  unescaped printable characters other than the quote and the backslash, and of the
  eight escapes the specification accepts.
\<close>

datatype string_item = Plain char | Escape char

fun item_text :: "string_item \<Rightarrow> string" where
  "item_text (Plain c) = [c]"
| "item_text (Escape c) = [CHR 0x5C, c]"

fun item_char :: "string_item \<Rightarrow> char" where
  "item_char (Plain c) = c"
| "item_char (Escape c) =
     (if c = CHR ''b'' then CHR 0x08
      else if c = CHR ''f'' then CHR 0x0C
      else if c = CHR ''n'' then CHR 0x0A
      else if c = CHR ''r'' then CHR 0x0D
      else if c = CHR ''t'' then CHR 0x09
      else c)"

fun item_ok :: "string_item \<Rightarrow> bool" where
  "item_ok (Plain c) \<longleftrightarrow> plain_char c"
| "item_ok (Escape c) \<longleftrightarrow>
     c \<in> {CHR 0x22, CHR 0x5C, CHR ''/'', CHR ''b'', CHR ''f'', CHR ''n'', CHR ''r'', CHR ''t''}"

definition body_text :: "string_item list \<Rightarrow> string" where
  "body_text items = concat (map item_text items)"

definition decoded :: "string_item list \<Rightarrow> string" where
  "decoded items = map item_char items"

section \<open>Unfolding the value parser\<close>

lemma peek_Cons [simp]: "peek (c # str) = c"
  by (simp add: peek_def)

lemma peek_Nil [simp]: "peek [] = CHR 0x00"
  by (simp add: peek_def)

lemma not_whitespace_NUL [simp]: "\<not> is_whitespace (CHR 0x00)"
  by (simp add: is_whitespace_def)

lemma peek_skip_whitespace [simp]: "\<not> is_whitespace (peek (skip_whitespace str))"
  by (induction str) simp_all

lemma parse_value_loop_end:
  "is_end (peek str) end \<Longrightarrow>
   parse_value_loop state str end obj =
     (if JSON_OBJECT_TYPE obj = PA_JSON_TYPE_INIT then None else Some (str, obj))"
  by (subst parse_value_loop.simps) simp

lemma parse_value_loop_init_ws:
  "\<not> is_end (peek str) end \<Longrightarrow> is_whitespace (peek str) \<Longrightarrow>
   parse_value_loop JSON_PARSER_STATE_INIT str end obj =
     parse_value_loop JSON_PARSER_STATE_INIT (tl str) end obj"
  by (subst parse_value_loop.simps) simp

lemma parse_value_loop_init_production:
  "\<not> is_end (peek str) end \<Longrightarrow> \<not> is_whitespace (peek str) \<Longrightarrow>
   parse_value_loop JSON_PARSER_STATE_INIT str end obj =
     (case production str obj of None \<Rightarrow> None
      | Some (str', obj') \<Rightarrow> parse_value_loop JSON_PARSER_STATE_FINISH str' end obj')"
  by (subst parse_value_loop.simps) (simp add: production_def)

lemma parse_value_loop_finish:
  "\<not> is_end (peek str) end \<Longrightarrow>
   parse_value_loop JSON_PARSER_STATE_FINISH str end obj =
     (if is_whitespace (peek str)
      then parse_value_loop JSON_PARSER_STATE_FINISH (tl str) end obj else None)"
  by (subst parse_value_loop.simps) simp

lemma parse_value_loop_finish_top:
  "parse_value_loop JSON_PARSER_STATE_FINISH str None obj =
     (if peek (skip_whitespace str) = CHR 0x00 \<and> JSON_OBJECT_TYPE obj \<noteq> PA_JSON_TYPE_INIT
      then Some (skip_whitespace str, obj) else None)"
proof (induction str)
  case Nil
  then show ?case by (simp add: parse_value_loop_end)
next
  case (Cons c str)
  show ?case
  proof (cases "c = CHR 0x00")
    case True
    then show ?thesis by (simp add: parse_value_loop_end)
  next
    case False
    with Cons show ?thesis by (simp add: parse_value_loop_finish)
  qed
qed

lemma parse_value_loop_init_top:
  "parse_value_loop JSON_PARSER_STATE_INIT str None obj =
   parse_value_loop JSON_PARSER_STATE_INIT (skip_whitespace str) None obj"
proof (induction str)
  case Nil
  then show ?case by simp
next
  case (Cons c str)
  show ?case
  proof (cases "is_whitespace c")
    case True
    then have "c \<noteq> CHR 0x00" by auto
    with True Cons show ?thesis by (simp add: parse_value_loop_init_ws)
  next
    case False
    then show ?thesis by simp
  qed
qed

lemma production_NUL: "peek str = CHR 0x00 \<Longrightarrow> production str obj = None"
  by (simp add: production_def is_digit_def)

lemma set_payload_type [simp]:
  "JSON_OBJECT_TYPE (set_payload obj V_NULL) = PA_JSON_TYPE_NULL"
  "JSON_OBJECT_TYPE (set_payload obj (V_INT i)) = PA_JSON_TYPE_INT"
  "JSON_OBJECT_TYPE (set_payload obj (V_DOUBLE d)) = PA_JSON_TYPE_DOUBLE"
  "JSON_OBJECT_TYPE (set_payload obj (V_BOOL b)) = PA_JSON_TYPE_BOOL"
  "JSON_OBJECT_TYPE (set_payload obj (V_STRING s)) = PA_JSON_TYPE_STRING"
  "JSON_OBJECT_TYPE (set_payload obj (V_OBJECT h)) = PA_JSON_TYPE_OBJECT"
  "JSON_OBJECT_TYPE (set_payload obj (V_ARRAY a)) = PA_JSON_TYPE_ARRAY"
  by (simp_all add: set_payload_def)

lemma parse_number_Some: "\<exists>str' v. parse_number str obj = Some (str', set_payload obj v) \<and> v \<noteq> V_INIT"
  unfolding parse_number_def Let_def case_prod_beta
  by (rule if_split [THEN iffD2]) blast

lemma production_payload:
  assumes "production str obj = Some (str', obj')"
  shows "\<exists>v. obj' = set_payload obj v \<and> v \<noteq> V_INIT"
proof -
  have n: "parse_null str obj = Some (str', obj') \<Longrightarrow> ?thesis"
    by (auto simp: parse_null_def simp del: consume_string.simps split: option.splits)
  have b: "parse_boolean str obj = Some (str', obj') \<Longrightarrow> ?thesis"
    by (auto simp: parse_boolean_def simp del: consume_string.simps split: option.splits)
  have s: "parse_string str obj = Some (str', obj') \<Longrightarrow> ?thesis"
    by (auto simp: parse_string_def split: option.splits)
  have d: "parse_number str obj = Some (str', obj') \<Longrightarrow> ?thesis"
    using parse_number_Some [of str obj] by auto
  have o: "parse_object str obj = Some (str', obj') \<Longrightarrow> ?thesis"
    by (auto simp: parse_object.simps split: option.splits)
  have a: "parse_array str obj = Some (str', obj') \<Longrightarrow> ?thesis"
    by (auto simp: parse_array.simps split: option.splits)
  from assms n b s d o a show ?thesis
    unfolding production_def by (simp split: if_splits)
qed

lemma production_type:
  assumes "production str obj = Some (str', obj')"
  shows "JSON_OBJECT_TYPE obj' \<noteq> PA_JSON_TYPE_INIT"
proof -
  from production_payload [OF assms]
  obtain v where "obj' = set_payload obj v" "v \<noteq> V_INIT" by blast
  then show ?thesis by (cases v) simp_all
qed

lemma parse_value_top:
  "parse_value str None =
    (case production (skip_whitespace str) json_object_new of None \<Rightarrow> None
      | Some (str', obj') \<Rightarrow> parse_value_loop JSON_PARSER_STATE_FINISH str' None obj')"
proof -
  have 1: "parse_value str None =
    parse_value_loop JSON_PARSER_STATE_INIT (skip_whitespace str) None json_object_new"
    by (simp only: parse_value.simps parse_value_loop_init_top [of str])
  show ?thesis
  proof (cases "peek (skip_whitespace str) = CHR 0x00")
    case True
    then show ?thesis unfolding 1
      by (simp add: production_NUL json_object_new_def parse_value_loop_end)
  next
    case False
    then show ?thesis unfolding 1
      by (simp add: parse_value_loop_init_production)
  qed
qed

lemma whitespace_not_end:
  assumes "is_whitespace c"
  shows "\<not> is_end c None" "\<not> is_end c (Some '':'')" "\<not> is_end c (Some '',}'')"
    "\<not> is_end c (Some '',]'')"
  using assms by (auto simp: is_whitespace_def)

lemma skip_whitespace_append:
  "list_all is_whitespace ws \<Longrightarrow> skip_whitespace (ws @ str) = skip_whitespace str"
  by (induction ws) simp_all

lemma skip_whitespace_id: "\<not> is_whitespace (peek str) \<Longrightarrow> skip_whitespace str = str"
  by (cases str) simp_all

lemma parse_value_loop_init_skip:
  assumes "list_all is_whitespace ws" and "\<And>c. is_whitespace c \<Longrightarrow> \<not> is_end c end"
  shows "parse_value_loop JSON_PARSER_STATE_INIT (ws @ str) end obj =
         parse_value_loop JSON_PARSER_STATE_INIT str end obj"
  using assms(1)
proof (induction ws)
  case Nil
  then show ?case by simp
next
  case (Cons c ws)
  then show ?case using assms(2) [of c] by (simp add: parse_value_loop_init_ws)
qed

lemma parse_object_loop_done:
  "peek str = CHR ''}'' \<Longrightarrow> parse_object_loop str object_values = Some (str, object_values)"
  by (subst parse_object_loop.simps) simp

lemma parse_object_loop_step:
  "peek str \<noteq> CHR ''}'' \<Longrightarrow>
   parse_object_loop str object_values =
     (case parse_value (tl str) (Some '':'') of None \<Rightarrow> None
      | Some (str1, name) \<Rightarrow>
          if JSON_OBJECT_TYPE name \<noteq> PA_JSON_TYPE_STRING then None
          else
            (case parse_value (tl str1) (Some '',}'') of None \<Rightarrow> None
             | Some (str2, val) \<Rightarrow>
                 (case pa_json_object_get_string name of None \<Rightarrow> None
                  | Some key \<Rightarrow>
                      parse_object_loop str2 (pa_hashmap_put object_values key val))))"
  by (subst parse_object_loop.simps) simp

lemma parse_array_loop_done:
  "peek str = CHR '']'' \<Longrightarrow> parse_array_loop str array_values = Some (str, array_values)"
  by (subst parse_array_loop.simps) simp

lemma parse_array_loop_step:
  "peek str \<noteq> CHR '']'' \<Longrightarrow>
   parse_array_loop str array_values =
     (if peek (skip_whitespace (tl str)) = CHR '']'' then
        Some (skip_whitespace (tl str), array_values)
      else
        (case parse_value (skip_whitespace (tl str)) (Some '',]'') of None \<Rightarrow> None
         | Some (str', val) \<Rightarrow> parse_array_loop str' (pa_idxset_put array_values val)))"
  by (subst parse_array_loop.simps) simp

lemma production_no_start:
  "\<not> is_digit c \<Longrightarrow> c \<notin> {CHR ''n'', CHR ''t'', CHR ''f'', CHR 0x22, CHR ''-'', CHR ''{'', CHR ''[''} \<Longrightarrow>
   production (c # str) obj = None"
  by (simp add: production_def)

lemma parse_value_not_a_value:
  assumes "list_all is_whitespace ws" and "\<And>c. is_whitespace c \<Longrightarrow> \<not> is_end c end"
    and "\<not> is_end c end" and "\<not> is_whitespace c" and "production (c # str) json_object_new = None"
  shows "parse_value (ws @ c # str) end = None"
  using assms
  by (simp add: parse_value.simps parse_value_loop_init_skip parse_value_loop_init_production)

lemma parse_value_production:
  assumes "\<not> is_end (peek str) end" and "\<not> is_whitespace (peek str)"
    and "production str json_object_new = Some (str', v)" and "is_end (peek str') end"
  shows "parse_value str end = Some (str', v)"
  using assms production_type [OF assms(3)]
  by (simp add: parse_value.simps parse_value_loop_init_production parse_value_loop_end)

lemma get_string_type:
  "pa_json_object_get_string name = Some key \<Longrightarrow> JSON_OBJECT_TYPE name = PA_JSON_TYPE_STRING"
  by (cases name rule: pa_json_object_get_string.cases) simp_all

lemma object_iteration_loop:
  "object_iteration str0 h0 str object_values \<Longrightarrow>
   parse_object_loop str0 h0 = parse_object_loop str object_values"
proof (induction rule: object_iteration.induct)
  case (start str object_values)
  show ?case ..
next
  case (step str0 h0 str object_values str1 name key str2 val)
  then show ?case by (simp add: parse_object_loop_step get_string_type)
qed

section \<open>Strings\<close>

lemma parse_string_loop_Nil: "parse_string_loop [] buf = None"
  by (simp add: parse_string_loop_plain)

lemma parse_string_loop_no_quote:
  "CHR 0x22 \<notin> set str \<Longrightarrow> parse_string_loop str buf = None"
proof (induction "length str" arbitrary: str buf rule: less_induct)
  case less
  show ?case
  proof (cases str)
    case Nil
    then show ?thesis by (simp add: parse_string_loop_Nil)
  next
    case (Cons c s)
    with less.prems have nq: "c \<noteq> CHR 0x22" and s: "CHR 0x22 \<notin> set s" by auto
    show ?thesis
    proof (cases "c = CHR 0x5C")
      case False
      from s have "parse_string_loop s (buf @ [c]) = None"
        by (intro less.hyps) (simp_all add: Cons)
      with False nq show ?thesis by (simp add: Cons parse_string_loop_plain)
    next
      case True
      show ?thesis
      proof (cases s)
        case Nil
        with True show ?thesis by (simp add: Cons parse_string_loop_escape unescape_def)
      next
        case (Cons e s')
        with s have "\<And>b. parse_string_loop s' b = None"
          by (intro less.hyps) (simp_all add: \<open>str = c # s\<close>)
        with True Cons show ?thesis
          by (simp add: \<open>str = c # s\<close> parse_string_loop_escape split: option.splits)
      qed
    qed
  qed
qed

lemma parse_string_loop_closing_quote:
  "parse_string_loop str buf = Some (str', buf') \<Longrightarrow> \<exists>body. str = body @ CHR 0x22 # str'"
proof (induction "length str" arbitrary: str buf rule: less_induct)
  case less
  show ?case
  proof (cases str)
    case Nil
    with less.prems show ?thesis by (simp add: parse_string_loop_Nil)
  next
    case (Cons c s)
    show ?thesis
    proof (cases "c = CHR 0x22")
      case True
      with less.prems Cons have "str' = s" by (simp add: parse_string_loop_quote)
      with True Cons have "str = [] @ CHR 0x22 # str'" by simp
      then show ?thesis by blast
    next
      case nq: False
      show ?thesis
      proof (cases "c = CHR 0x5C")
        case False
        with nq less.prems Cons have "parse_string_loop s (buf @ [c]) = Some (str', buf')"
          by (simp add: parse_string_loop_plain split: if_splits)
        then obtain body where "s = body @ CHR 0x22 # str'"
          using less.hyps [of s] Cons by auto
        then have "str = (c # body) @ CHR 0x22 # str'" by (simp add: Cons)
        then show ?thesis by blast
      next
        case True
        show ?thesis
        proof (cases s)
          case Nil
          with True less.prems Cons show ?thesis
            by (simp add: parse_string_loop_escape unescape_def)
        next
          case s: (Cons e s')
          with True less.prems Cons obtain b where
            "parse_string_loop s' b = Some (str', buf')"
            by (auto simp: parse_string_loop_escape split: option.splits)
          then obtain body where "s' = body @ CHR 0x22 # str'"
            using less.hyps [of s'] Cons s by auto
          then have "str = (c # e # body) @ CHR 0x22 # str'" by (simp add: Cons s)
          then show ?thesis by blast
        qed
      qed
    qed
  qed
qed

lemma parse_string_loop_plain_run:
  "list_all plain_char k \<Longrightarrow> parse_string_loop (k @ CHR 0x22 # rest) buf = Some (rest, buf @ k)"
proof (induction k arbitrary: buf)
  case Nil
  show ?case by (simp add: parse_string_loop_quote)
next
  case (Cons c k)
  from Cons.prems have c: "plain_char c" and k: "list_all plain_char k" by simp_all
  from c Cons.IH [OF k, of "buf @ [c]"] show ?case
    by (simp add: parse_string_loop_plain plain_char_def not_less)
qed

lemma plain_key_parses:
  assumes "list_all plain_char k"
  shows "parses_as_key (CHR 0x22 # k @ [CHR 0x22]) k"
proof -
  have "parse_value ((CHR 0x22 # k @ [CHR 0x22]) @ CHR '':'' # rest) (Some '':'')
      = Some (CHR '':'' # rest, set_payload json_object_new (V_STRING k))" for rest
  proof (rule parse_value_production)
    show "production ((CHR 0x22 # k @ [CHR 0x22]) @ CHR '':'' # rest) json_object_new
        = Some (CHR '':'' # rest, set_payload json_object_new (V_STRING k))"
      using parse_string_loop_plain_run [OF assms, of "CHR '':'' # rest" "[]"]
      by (simp add: production_def parse_string_def)
  qed (simp_all add: is_whitespace_def)
  then show ?thesis
    by (auto simp: parses_as_key_def set_payload_def)
qed

lemma body_text_simps [simp]:
  "body_text [] = []"
  "body_text (i # items) = item_text i @ body_text items"
  by (simp_all add: body_text_def)

lemma parse_string_loop_items:
  "list_all item_ok items \<Longrightarrow>
   parse_string_loop (body_text items @ rest) buf = parse_string_loop rest (buf @ decoded items)"
proof (induction items arbitrary: buf)
  case Nil
  show ?case by (simp add: decoded_def)
next
  case (Cons i items)
  from Cons.prems have i: "item_ok i" and r: "list_all item_ok items" by simp_all
  show ?case
  proof (cases i)
    case (Plain c)
    with i have "plain_char c" by simp
    then have "parse_string_loop (c # body_text items @ rest) buf
        = parse_string_loop (body_text items @ rest) (buf @ [c])"
      by (simp add: parse_string_loop_plain plain_char_def not_less)
    with Cons.IH [OF r, of "buf @ [c]"] Plain show ?thesis by (simp add: decoded_def)
  next
    case (Escape c)
    with i have "unescape c = Some (item_char (Escape c))"
      by (auto simp: unescape_def)
    then have "parse_string_loop (CHR 0x5C # c # body_text items @ rest) buf
        = parse_string_loop (body_text items @ rest) (buf @ [item_char (Escape c)])"
      by (simp add: parse_string_loop_escape)
    with Cons.IH [OF r, of "buf @ [item_char (Escape c)]"] Escape show ?thesis
      by (simp add: decoded_def)
  qed
qed

lemma parse_string_items:
  assumes "list_all item_ok items"
  shows "parse_string (CHR 0x22 # body_text items @ rest) obj =
    (case parse_string_loop rest (decoded items) of None \<Rightarrow> None
     | Some (str', buf) \<Rightarrow> Some (str', set_payload obj (V_STRING buf)))"
  using parse_string_loop_items [OF assms, of rest "[]"] by (simp add: parse_string_def)

lemma pa_json_parse_string_None:
  "parse_string (CHR 0x22 # str) json_object_new = None \<Longrightarrow> pa_json_parse (CHR 0x22 # str) = None"
  by (simp add: pa_json_parse_def parse_value_top production_def is_whitespace_def)

lemma pa_json_parse_string_Some:
  assumes "parse_string (CHR 0x22 # str) json_object_new = Some ([], v)"
  shows "pa_json_parse (CHR 0x22 # str) = Some v"
proof -
  have "production (CHR 0x22 # str) json_object_new = Some ([], v)"
    using assms by (simp add: production_def)
  then show ?thesis
    using production_type [of "CHR 0x22 # str" json_object_new "[]" v]
    by (simp add: pa_json_parse_def parse_value_top is_whitespace_def
          parse_value_loop_finish_top)
qed


lemma parse_string_loop_Some_items:
  "parse_string_loop str buf = Some (str', buf') \<Longrightarrow>
   \<exists>items. list_all item_ok items \<and> str = body_text items @ CHR 0x22 # str' \<and>
     buf' = buf @ decoded items"
proof (induction "length str" arbitrary: str buf rule: less_induct)
  case less
  show ?case
  proof (cases str)
    case Nil
    with less.prems show ?thesis by (simp add: parse_string_loop_Nil)
  next
    case (Cons c s)
    show ?thesis
    proof (cases "c = CHR 0x22")
      case True
      with less.prems Cons have "str' = s" "buf' = buf" by (simp_all add: parse_string_loop_quote)
      with True Cons have "list_all item_ok [] \<and> str = body_text [] @ CHR 0x22 # str' \<and>
          buf' = buf @ decoded []"
        by (simp add: decoded_def)
      then show ?thesis by blast
    next
      case nq: False
      show ?thesis
      proof (cases "c = CHR 0x5C")
        case False
        with nq less.prems Cons have p: "plain_char c"
          and "parse_string_loop s (buf @ [c]) = Some (str', buf')"
          by (simp_all add: parse_string_loop_plain plain_char_def not_less split: if_splits)
        then obtain items where "list_all item_ok items" "s = body_text items @ CHR 0x22 # str'"
          "buf' = (buf @ [c]) @ decoded items"
          using less.hyps [of s "buf @ [c]"] Cons by auto
        with p have "list_all item_ok (Plain c # items) \<and>
            str = body_text (Plain c # items) @ CHR 0x22 # str' \<and>
            buf' = buf @ decoded (Plain c # items)"
          by (simp add: Cons decoded_def)
        then show ?thesis by blast
      next
        case True
        show ?thesis
        proof (cases s)
          case Nil
          with True less.prems Cons show ?thesis
            by (simp add: parse_string_loop_escape unescape_def)
        next
          case s: (Cons e s')
          with True less.prems Cons obtain b where b: "unescape e = Some b"
            and "parse_string_loop s' (buf @ [b]) = Some (str', buf')"
            by (auto simp: parse_string_loop_escape split: option.splits)
          then obtain items where "list_all item_ok items" "s' = body_text items @ CHR 0x22 # str'"
            "buf' = (buf @ [b]) @ decoded items"
            using less.hyps [of s' "buf @ [b]"] Cons s by auto
          moreover from b have "item_ok (Escape e)" "item_char (Escape e) = b"
            by (auto simp: unescape_def split: if_splits)
          ultimately have "list_all item_ok (Escape e # items) \<and>
              str = body_text (Escape e # items) @ CHR 0x22 # str' \<and>
              buf' = buf @ decoded (Escape e # items)"
            using True by (simp add: Cons s decoded_def)
          then show ?thesis by blast
        qed
      qed
    qed
  qed
qed

section \<open>Numbers\<close>

lemma foldl_digits_word:
  "foldl (\<lambda>a c. a * 10 + of_nat (digit_val c)) (of_nat n :: 32 word) ds =
   of_nat (foldl (\<lambda>a c. a * 10 + digit_val c) n ds)"
proof (induction ds arbitrary: n)
  case Nil
  show ?case by simp
next
  case (Cons d ds)
  have h: "(of_nat n :: 32 word) * 10 + of_nat (digit_val d) = of_nat (n * 10 + digit_val d)"
    by simp
  show ?case by (simp only: foldl_Cons h Cons)
qed

lemma parse_number_integer_digits:
  assumes "list_all is_digit ds" and "\<not> is_digit (peek rest)"
  shows "parse_number_integer (ds @ rest) acc =
         (rest, foldl (\<lambda>a c. a * 10 + of_nat (digit_val c)) acc ds)"
  using assms(1)
proof (induction ds arbitrary: acc)
  case Nil
  with assms(2) show ?case by (simp add: parse_number_integer_stop)
next
  case (Cons d ds)
  then show ?case by (simp add: parse_number_integer_digit)
qed

lemma parse_number_fraction_digits:
  assumes "list_all is_digit ds" and "\<not> is_digit (peek rest)"
  shows "parse_number_fraction (ds @ rest) acc n =
         (rest, foldl (\<lambda>a c. a * 10 + of_nat (digit_val c)) acc ds, n + of_nat (length ds))"
  using assms(1)
proof (induction ds arbitrary: acc n)
  case Nil
  with assms(2) show ?case by (simp add: parse_number_fraction_stop)
next
  case (Cons d ds)
  then show ?case by (simp add: parse_number_fraction_digit)
qed

lemma parse_number_exponent_digits:
  assumes "list_all is_digit ds" and "\<not> is_digit (peek rest)"
  shows "parse_number_exponent (ds @ rest) acc =
         (rest, foldl (\<lambda>a c. a * 10 + of_nat (digit_val c)) acc ds)"
  using assms(1)
proof (induction ds arbitrary: acc)
  case Nil
  with assms(2) show ?case by (simp add: parse_number_exponent_stop)
next
  case (Cons d ds)
  then show ?case by (simp add: parse_number_exponent_digit)
qed

lemma parse_number_integer_decimal:
  "list_all is_digit ds \<Longrightarrow> \<not> is_digit (peek rest) \<Longrightarrow>
   parse_number_integer (ds @ rest) 0 = (rest, of_nat (decimal ds))"
  using foldl_digits_word [of 0 ds] by (simp add: parse_number_integer_digits decimal_def)

lemma parse_number_fraction_decimal:
  "list_all is_digit ds \<Longrightarrow> \<not> is_digit (peek rest) \<Longrightarrow>
   parse_number_fraction (ds @ rest) 0 0 = (rest, of_nat (decimal ds), of_nat (length ds))"
  using foldl_digits_word [of 0 ds] by (simp add: parse_number_fraction_digits decimal_def)

lemma parse_number_exponent_decimal:
  "list_all is_digit ds \<Longrightarrow> \<not> is_digit (peek rest) \<Longrightarrow>
   parse_number_exponent (ds @ rest) 0 = (rest, of_nat (decimal ds))"
  using foldl_digits_word [of 0 ds] by (simp add: parse_number_exponent_digits decimal_def)

lemma parse_number_stages:
  assumes "str1 = (if peek str0 = CHR ''-'' then tl str0 else str0)"
    and "(if peek str1 = CHR ''0'' then (tl str1, 0) else parse_number_integer str1 0)
           = (str2, integer)"
    and "(if peek str2 = CHR ''.'' then parse_number_fraction (tl str2) 0 0 else (str2, 0, 0))
           = (str3, fraction, fraction_digits)"
    and "str3' = (if peek (tl str3) = CHR ''-'' then tl (tl str3)
                  else if peek (tl str3) = CHR ''+'' then tl (tl str3)
                  else tl str3)"
    and "parse_number_exponent str3' 0 = (str4, e)"
  shows "parse_number str0 obj =
     (if peek str2 = CHR ''.'' \<or> peek str3 = CHR ''e'' \<or> peek str3 = CHR ''E'' then
        Some (if peek str3 = CHR ''e'' \<or> peek str3 = CHR ''E'' then str4 else str3,
          set_payload obj (V_DOUBLE
             ((if peek str0 = CHR ''-'' then -1 else 1)
               * (real (unat integer) + real (unat fraction) / 10 ^ unat fraction_digits)
               * 10 powi sint (if peek str3 = CHR ''e'' \<or> peek str3 = CHR ''E''
                               then (if peek (tl str3) = CHR ''-'' then e * (-1) else e)
                               else 0))))
      else
        Some (str3, set_payload obj
          (V_INT (sint ((if peek str0 = CHR ''-'' then -1 else 1) * integer)))))"
  unfolding parse_number_def Let_def assms(1) [symmetric] assms(2) prod.case assms(3)
    assms(4) [symmetric] assms(5)
  by simp

lemma sint_of_int32: "sint (of_int k :: 32 word) = int32 k"
  by (simp add: sint_sbintrunc' signed_take_bit_eq_take_bit_shift take_bit_eq_mod int32_def)

lemma sint_of_nat32: "sint (of_nat n :: 32 word) = int32 (int n)"
  using sint_of_int32 [of "int n"] by simp

lemma sint_neg_of_nat32: "sint (- (of_nat n :: 32 word)) = int32 (- int n)"
  using sint_of_int32 [of "- int n"] by simp

lemma unat_of_nat32: "unat (of_nat n :: 32 word) = n mod 2 ^ 32"
  by (simp add: unat_of_nat)

lemma int32_mod: "int32 (k mod 2 ^ 32) = int32 k"
  by (simp add: int32_def mod_add_left_eq)

lemma int32_neg_mod: "int32 (- (k mod 2 ^ 32)) = int32 (- k)"
proof -
  have "(- (k mod 2 ^ 32) + 2 ^ 31) mod 2 ^ 32 = (- k + 2 ^ 31) mod (2 ^ 32 :: int)"
    by (metis mod_add_left_eq mod_minus_eq)
  then show ?thesis by (simp add: int32_def)
qed

lemma int32_nat_mod [simp]:
  "int32 (int (m mod 4294967296)) = int32 (int m)"
  "int32 (- int (m mod 4294967296)) = int32 (- int m)"
  using int32_mod [of "int m"] int32_neg_mod [of "int m"] by (simp_all add: zmod_int)


lemma is_digit_simps [simp]:
  "\<not> is_digit (CHR ''.'')" "\<not> is_digit (CHR ''e'')" "\<not> is_digit (CHR ''E'')"
  "\<not> is_digit (CHR ''+'')" "\<not> is_digit (CHR ''-'')" "is_digit (CHR ''0'')"
  by (simp_all add: is_digit_def)

lemma peek_append: "peek (xs @ ys) = (if xs = [] then peek ys else peek xs)"
  by (cases xs) simp_all

lemma list_all_digit_peek: "list_all is_digit ds \<Longrightarrow> ds \<noteq> [] \<Longrightarrow> is_digit (peek ds)"
  by (cases ds) simp_all

lemma exponent_stage:
  assumes "exponent_ok (Some (e, sg, es))" and "number_end (peek rest)"
  shows "(if peek (sg @ es @ rest) = CHR ''-'' then tl (sg @ es @ rest)
          else if peek (sg @ es @ rest) = CHR ''+'' then tl (sg @ es @ rest)
          else sg @ es @ rest) = es @ rest"
    and "peek (sg @ es @ rest) = CHR ''-'' \<longleftrightarrow> sg = ''-''"
    and "parse_number_exponent (es @ rest) 0 = (rest, of_nat (decimal es))"
proof -
  from assms(2) have nd: "\<not> is_digit (peek rest)" by (simp add: number_end_def)
  have p: "peek (es @ rest) \<noteq> CHR ''-''" "peek (es @ rest) \<noteq> CHR ''+''"
    using assms list_all_digit_peek [of es]
    by (auto simp: peek_append number_end_def)
  from assms(1) p show "(if peek (sg @ es @ rest) = CHR ''-'' then tl (sg @ es @ rest)
          else if peek (sg @ es @ rest) = CHR ''+'' then tl (sg @ es @ rest)
          else sg @ es @ rest) = es @ rest"
    by auto
  from assms(1) p show "peek (sg @ es @ rest) = CHR ''-'' \<longleftrightarrow> sg = ''-''" by auto
  from assms(1) nd show "parse_number_exponent (es @ rest) 0 = (rest, of_nat (decimal es))"
    by (simp add: parse_number_exponent_decimal)
qed

lemma parse_number_literal:
  assumes ip: "integer_ok ip" and fp: "fraction_ok fp" and ep: "exponent_ok ep"
    and rest: "number_end (peek rest)"
  shows "parse_number (literal_text (Number_Literal n ip fp ep) @ rest) obj =
         Some (rest, set_payload obj (spec_number_value (Number_Literal n ip fp ep)))"
proof -
  define str3 where "str3 = exponent_text ep @ rest"
  define str2 where "str2 = fraction_text fp @ str3"
  define str1 where "str1 = ip @ str2"
  define str0 where "str0 = (if n then ''-'' else []) @ str1"
  define str3' where "str3' = (if peek (tl str3) = CHR ''-'' then tl (tl str3)
                  else if peek (tl str3) = CHR ''+'' then tl (tl str3)
                  else tl str3)"
  define str4 where "str4 = fst (parse_number_exponent str3' 0)"
  define e where "e = snd (parse_number_exponent str3' 0)"
  from rest have nd: "\<not> is_digit (peek rest)" by (simp add: number_end_def)
  have h3: "\<not> is_digit (peek str3)" "peek str3 \<noteq> CHR ''.''" "peek str3 \<noteq> CHR ''-''"
    using ep rest by (cases ep; auto simp: str3_def number_end_def)+
  have h2: "\<not> is_digit (peek str2)" "peek str2 \<noteq> CHR ''-''"
    using h3 by (cases fp; simp add: str2_def)+
  have zero: "peek str2 \<noteq> CHR ''0''" using h2(1) by auto
  have h1: "peek str1 \<noteq> CHR ''-''"
    using ip h2(2) list_all_digit_peek [of ip]
    by (auto simp: str1_def peek_append integer_ok_def)
  have h0: "peek str0 = CHR ''-'' \<longleftrightarrow> n" using h1 by (simp add: str0_def)
  have s1: "str1 = (if peek str0 = CHR ''-'' then tl str0 else str0)"
    using h0 by (simp add: str0_def)
  have s2: "(if peek str1 = CHR ''0'' then (tl str1, 0) else parse_number_integer str1 0)
      = (str2, of_nat (decimal ip))"
  proof (cases "ip = ''0''")
    case True
    then show ?thesis by (simp add: str1_def decimal_def digit_val_def)
  next
    case False
    with ip have d: "list_all is_digit ip" and nz: "peek ip \<noteq> CHR ''0''"
      by (simp_all add: integer_ok_def)
    from nz zero have "peek str1 \<noteq> CHR ''0''" by (simp add: str1_def peek_append)
    with d h2(1) show ?thesis by (simp add: str1_def parse_number_integer_decimal)
  qed
  have s3: "(if peek str2 = CHR ''.'' then parse_number_fraction (tl str2) 0 0 else (str2, 0, 0))
      = (str3, of_nat (case fp of None \<Rightarrow> 0 | Some fs \<Rightarrow> decimal fs),
               of_nat (case fp of None \<Rightarrow> 0 | Some fs \<Rightarrow> length fs))"
    using fp h3(1,2) by (cases fp) (simp_all add: str2_def parse_number_fraction_decimal)
  have s5: "parse_number_exponent str3' 0 = (str4, e)" by (simp add: str4_def e_def)
  note st = parse_number_stages [OF s1 s2 s3 str3'_def s5, of obj]
  have f: "peek str2 = CHR ''.'' \<longleftrightarrow> fp \<noteq> None"
    using h3(2) by (cases fp) (simp_all add: str2_def)
  have t: "literal_text (Number_Literal n ip fp ep) @ rest = str0"
    by (simp add: str0_def str1_def str2_def str3_def)
  show ?thesis
  proof (cases ep)
    case None
    with rest have x: "\<not> (peek str3 = CHR ''e'' \<or> peek str3 = CHR ''E'')" and r: "str3 = rest"
      by (simp_all add: str3_def number_end_def)
    show ?thesis
    proof (cases n)
      case True
      with None x r f h0 show ?thesis
        unfolding t st
        by (cases fp) (simp_all add: sint_neg_of_nat32 unat_of_nat32 int32_neg_mod)
    next
      case False
      with None x r f h0 show ?thesis
        unfolding t st
        by (cases fp) (simp_all add: sint_of_nat32 unat_of_nat32 int32_mod)
    qed
  next
    case (Some a)
    then obtain c sg es where a: "ep = Some (c, sg, es)" by (cases a) auto
    with ep have x: "peek str3 = CHR ''e'' \<or> peek str3 = CHR ''E''"
      and tl3: "tl str3 = sg @ es @ rest"
      by (auto simp: str3_def)
    note ex = exponent_stage [OF ep [unfolded a] rest]
    have s3': "str3' = es @ rest" unfolding str3'_def tl3 by (rule ex(1))
    have s4: "str4 = rest" "e = of_nat (decimal es)"
      by (simp_all add: str4_def e_def s3' ex(3))
    have m: "peek (tl str3) = CHR ''-'' \<longleftrightarrow> sg = ''-''" unfolding tl3 by (rule ex(2))
    have ev: "sint (if sg = ''-'' then e * (- 1) else e)
        = int32 ((if sg = ''-'' then - 1 else 1) * int (decimal es))"
      by (simp add: s4 sint_of_nat32 sint_neg_of_nat32)
    show ?thesis
    proof (cases n)
      case True
      with x f h0 a show ?thesis
        unfolding t st
        by (cases fp) (simp_all add: m s4(1) ev unat_of_nat32)
    next
      case False
      with x f h0 a show ?thesis
        unfolding t st
        by (cases fp) (simp_all add: m s4(1) ev unat_of_nat32)
    qed
  qed
qed



lemma number_parses_as_value:
  assumes "well_formed lit"
  shows "parses_as_value (literal_text lit) (JSON 0 (spec_number_value lit))"
proof -
  obtain n ip fp ep where lit: "lit = Number_Literal n ip fp ep" by (cases lit)
  from assms have ok: "integer_ok ip" "fraction_ok fp" "exponent_ok ep" and ne: "ip \<noteq> []"
    unfolding lit by (auto simp: integer_ok_def split: option.splits)
  have "is_digit (peek ip)"
    using ok(1) ne list_all_digit_peek [of ip] by (auto simp: integer_ok_def)
  then have hd: "is_digit (peek (literal_text lit @ r)) \<or> peek (literal_text lit @ r) = CHR ''-''"
    for r
    using ne by (simp add: lit peek_append)
  have "parse_value (literal_text lit @ d # rest) (Some '',}'')
      = Some (d # rest, JSON 0 (spec_number_value lit))"
    if d: "d = CHR '','' \<or> d = CHR ''}''" for d rest
  proof (rule parse_value_production)
    from d have "number_end (peek (d # rest))" by (auto simp: number_end_def is_digit_def)
    from parse_number_literal [OF ok this, of n json_object_new]
    have "parse_number (literal_text lit @ d # rest) json_object_new
        = Some (d # rest, JSON 0 (spec_number_value lit))"
      by (simp add: lit set_payload_def json_object_new_def)
    with hd [of "d # rest"]
    show "production (literal_text lit @ d # rest) json_object_new
        = Some (d # rest, JSON 0 (spec_number_value lit))"
      by (auto simp: production_def is_digit_def)
    from hd [of "d # rest"] show "\<not> is_end (peek (literal_text lit @ d # rest)) (Some '',}'')"
      by (auto simp: is_digit_def)
    from hd [of "d # rest"] show "\<not> is_whitespace (peek (literal_text lit @ d # rest))"
      by (auto simp: is_digit_def is_whitespace_def)
    from d show "is_end (peek (d # rest)) (Some '',}'')" by auto
  qed
  then show ?thesis by (simp add: parses_as_value_def)
qed

section \<open>Objects\<close>

lemma map_of_pa_hashmap_put:
  "map_of (pa_hashmap_put h key val) = (map_of h)(key \<mapsto> val)"
  by (induction h key val rule: pa_hashmap_put.induct) auto

lemma parse_object_loop_member:
  assumes "member_ok m" and "c \<noteq> CHR ''}''" and "d = CHR '','' \<or> d = CHR ''}''"
  shows "parse_object_loop (c # member_text m @ d # rest) h =
         parse_object_loop (d # rest) (put_member h m)"
proof -
  obtain kt k vt v where m: "m = Member kt k vt v" by (cases m)
  from assms(1) obtain name where
    k: "parse_value (kt @ CHR '':'' # vt @ d # rest) (Some '':'')
          = Some (CHR '':'' # vt @ d # rest, name)"
    and g: "pa_json_object_get_string name = Some k"
    unfolding m by (auto simp: parses_as_key_def)
  from assms(1,3) have
    v: "parse_value (vt @ d # rest) (Some '',}'') = Some (d # rest, v)"
    unfolding m by (auto simp: parses_as_value_def)
  from assms(2) k g v show ?thesis
    by (simp add: parse_object_loop_step m get_string_type put_member_def)
qed

lemma parse_object_loop_members:
  assumes "ms \<noteq> []" and "list_all member_ok ms" and "c \<noteq> CHR ''}''"
  shows "parse_object_loop (c # members_text ms @ CHR ''}'' # rest) h =
         Some (CHR ''}'' # rest, foldl put_member h ms)"
  using assms
proof (induction ms arbitrary: c h rule: list_nonempty_induct)
  case (single m)
  then show ?case
    using parse_object_loop_member [of m c "CHR ''}''" rest h]
    by (simp add: parse_object_loop_done)
next
  case (cons m ms)
  then obtain m' ms' where ms: "ms = m' # ms'" by (cases ms) auto
  from cons.prems have "member_ok m" "list_all member_ok ms" by simp_all
  with cons.prems(2) cons.IH [of "CHR '',''" "put_member h m"]
    parse_object_loop_member [of m c "CHR '',''" "members_text ms @ CHR ''}'' # rest" h]
  show ?case by (simp add: ms)
qed

lemma map_of_foldl_put_member:
  "map_of (foldl put_member h ms) =
   map_of h ++ map_of (rev (map (\<lambda>m. (member_key m, member_value m)) ms))"
proof (induction ms arbitrary: h)
  case Nil
  show ?case by simp
next
  case (Cons m ms)
  have p: "map_of (put_member h m) = (map_of h)(member_key m \<mapsto> member_value m)"
    by (simp add: put_member_def map_of_pa_hashmap_put)
  have "map_of (foldl put_member h (m # ms)) =
        map_of (put_member h m) ++ map_of (rev (map (\<lambda>m. (member_key m, member_value m)) ms))"
    by (simp only: foldl_Cons Cons)
  also have "\<dots> = map_of h ++ map_of (rev (map (\<lambda>m. (member_key m, member_value m)) (m # ms)))"
    unfolding p by (auto simp: fun_eq_iff map_add_def split: option.splits)
  finally show ?case .
qed

section \<open>The properties\<close>

text \<open>
  Claim C1. An object literal is an opening brace, one or more members separated by commas,
  and a closing brace, where each member is a text that the parser reads as a String key up
  to the colon, the colon, and a text that the parser reads as a value up to the comma or
  closing brace. With the hashmap as the spec describes it, every such literal parses, as a
  production and at top level, and looking up a key in the result gives the value of the
  last member with that key: last write for a repeated key wins.
\<close>

theorem duplicate_key_last_wins:
  assumes "ms \<noteq> []" and "list_all member_ok ms"
  shows "\<exists>h. parse_object (object_text ms @ rest) obj = Some (rest, set_payload obj (V_OBJECT h)) \<and>
           pa_json_parse (object_text ms) = Some (JSON 0 (V_OBJECT h)) \<and>
           (\<forall>ms1 m ms2. ms = ms1 @ m # ms2 \<and> member_key m \<notin> member_key ` set ms2 \<longrightarrow>
              pa_json_object_get_object_member (JSON 0 (V_OBJECT h)) (member_key m)
                = Some (member_value m)) \<and>
           (\<forall>name. pa_json_object_get_object_member (JSON 0 (V_OBJECT h)) name
                = map_of (rev (map (\<lambda>m. (member_key m, member_value m)) ms)) name)"
proof -
  define h where "h = foldl put_member [] ms"
  have l: "parse_object_loop (object_text ms @ r) [] = Some (CHR ''}'' # r, h)" for r
    using parse_object_loop_members [OF assms, of "CHR ''{''" r "[]"]
    by (simp add: object_text_def h_def)
  then have o: "parse_object (object_text ms @ r) obj' = Some (r, set_payload obj' (V_OBJECT h))"
    for r obj'
    by (simp add: parse_object.simps)
  have "production (object_text ms) json_object_new
      = Some ([], set_payload json_object_new (V_OBJECT h))"
    using o [of "[]" json_object_new] by (simp add: production_def object_text_def is_digit_def)
  then have p: "pa_json_parse (object_text ms) = Some (JSON 0 (V_OBJECT h))"
    by (simp add: pa_json_parse_def parse_value_top parse_value_loop_finish_top
          object_text_def is_whitespace_def set_payload_def json_object_new_def)
  have g: "pa_json_object_get_object_member (JSON 0 (V_OBJECT h)) name
      = map_of (rev (map (\<lambda>m. (member_key m, member_value m)) ms)) name" for name
    by (simp add: pa_hashmap_get_def h_def map_of_foldl_put_member)
  have last: "pa_json_object_get_object_member (JSON 0 (V_OBJECT h)) (member_key m)
        = Some (member_value m)"
    if "ms = ms1 @ m # ms2 \<and> member_key m \<notin> member_key ` set ms2" for ms1 m ms2
  proof -
    from that have "map_of (rev (map (\<lambda>m. (member_key m, member_value m)) ms2)) (member_key m) = None"
      by (auto simp: map_of_eq_None_iff image_iff)
    with that show ?thesis
      unfolding g by (simp add: map_of_append map_add_def)
  qed
  from o [of rest obj] p g last show ?thesis by blast
qed

theorem duplicate_key_last_wins_witness:
  "\<exists>v. pa_json_parse
          (''{'' @ [CHR 0x22] @ ''a'' @ [CHR 0x22] @ '':1,'' @ [CHR 0x22] @ ''a'' @ [CHR 0x22] @ '':2}'')
          = Some v \<and>
        pa_json_object_get_object_member v ''a'' = Some (JSON 0 (V_INT 2))"
proof -
  let ?m1 = "Member (CHR 0x22 # ''a'' @ [CHR 0x22]) ''a'' ''1'' (JSON 0 (V_INT 1))"
  let ?m2 = "Member (CHR 0x22 # ''a'' @ [CHR 0x22]) ''a'' ''2'' (JSON 0 (V_INT 2))"
  have k: "parses_as_key (CHR 0x22 # ''a'' @ [CHR 0x22]) ''a''"
    by (rule plain_key_parses) (simp add: plain_char_def)
  have d: "decimal ''1'' = 1" "decimal ''2'' = 2" by (simp_all add: decimal_def digit_val_def)
  have v1: "parses_as_value ''1'' (JSON 0 (V_INT 1))"
    using number_parses_as_value [of "Number_Literal False ''1'' None None"]
    by (simp add: is_digit_def d int32_def)
  have v2: "parses_as_value ''2'' (JSON 0 (V_INT 2))"
    using number_parses_as_value [of "Number_Literal False ''2'' None None"]
    by (simp add: is_digit_def d int32_def)
  have ok: "list_all member_ok [?m1, ?m2]" using k v1 v2 by simp
  have ne: "[?m1, ?m2] \<noteq> []" by simp
  from duplicate_key_last_wins [OF ne ok, of "[]" json_object_new]
  obtain h where
    p: "pa_json_parse (object_text [?m1, ?m2]) = Some (JSON 0 (V_OBJECT h))"
    and l: "\<forall>ms1 m ms2. [?m1, ?m2] = ms1 @ m # ms2 \<and> member_key m \<notin> member_key ` set ms2 \<longrightarrow>
              pa_json_object_get_object_member (JSON 0 (V_OBJECT h)) (member_key m)
                = Some (member_value m)"
    by blast
  from l [rule_format, of "[?m1]" ?m2 "[]"]
  have "pa_json_object_get_object_member (JSON 0 (V_OBJECT h)) ''a'' = Some (JSON 0 (V_INT 2))"
    by simp
  with p show ?thesis by (simp add: object_text_def)
qed

text \<open>
  Claim C2. Every value created by the node constructor \<^verbatim>\<open>json_object_new\<close> is said to
  start with a reference count of exactly 1. The constructor only zero-allocates the node
  and never initialises the counter, so the count of every created value is 0: that of the
  fresh node, and that of the value the parser returns for the input \<^verbatim>\<open>1\<close>.
\<close>

theorem json_object_new_refcnt_zero:
  "refcnt json_object_new = 0 \<and> refcnt json_object_new \<noteq> 1 \<and>
   pa_json_parse ''1'' = Some (JSON 0 (V_INT 1))"
  by (simp add: json_object_new_def) code_simp

text \<open>
  Claim C3, amended. The number production never fails, and it takes as integer part a
  single \<^verbatim>\<open>0\<close> or a possibly empty run of digits: a number literal with no integer-part
  digit is parsed with integer part 0. A lone \<^verbatim>\<open>-\<close> followed by a character that
  does not continue the number yields the Int 0, and the top-level input \<^verbatim>\<open>-\<close> is parsed
  successfully as the Int 0.
\<close>

theorem number_without_integer_digits:
  "(\<exists>r. parse_number str obj = Some r) \<and>
   (number_end (peek rest) \<longrightarrow>
      parse_number (CHR ''-'' # rest) obj = Some (rest, set_payload obj (V_INT 0))) \<and>
   (fraction_ok fp \<and> exponent_ok ep \<and> number_end (peek rest) \<longrightarrow>
      parse_number (literal_text (Number_Literal n [] fp ep) @ rest) obj =
        Some (rest, set_payload obj (spec_number_value (Number_Literal n [] fp ep)))) \<and>
   pa_json_parse ''-'' = Some (JSON 0 (V_INT 0))"
proof -
  have i: "integer_ok []" by (simp add: integer_ok_def)
  have 1: "\<exists>r. parse_number str obj = Some r"
    using parse_number_Some [of str obj] by blast
  have 2: "number_end (peek rest) \<longrightarrow>
      parse_number (CHR ''-'' # rest) obj = Some (rest, set_payload obj (V_INT 0))"
    using parse_number_literal [OF i, of None None rest True obj]
    by (simp add: decimal_def int32_def)
  have 3: "fraction_ok fp \<and> exponent_ok ep \<and> number_end (peek rest) \<longrightarrow>
      parse_number (literal_text (Number_Literal n [] fp ep) @ rest) obj =
        Some (rest, set_payload obj (spec_number_value (Number_Literal n [] fp ep)))"
    using parse_number_literal [OF i, of fp ep rest n obj] by blast
  have 4: "pa_json_parse ''-'' = Some (JSON 0 (V_INT 0))" by code_simp
  from 1 2 3 4 show ?thesis by blast
qed

theorem number_without_integer_digits_witness:
  "parse_number ''-,'' json_object_new = Some ('','', JSON 0 (V_INT 0)) \<and>
   parse_number ''-.5]'' json_object_new = Some ('']'', JSON 0 (V_DOUBLE (- (1 / 2)))) \<and>
   (\<exists>r. parse_number ''-'' json_object_new = Some r)"
proof -
  let ?l = "Number_Literal True [] (Some ''5'') None"
  have e: "number_end (peek '','')" "number_end (peek '']'')"
    by (simp_all add: number_end_def is_digit_def)
  have f: "fraction_ok (Some ''5'')" "exponent_ok None" by (simp_all add: is_digit_def)
  have d: "decimal [] = 0" "decimal ''5'' = 5" by (simp_all add: decimal_def digit_val_def)
  have val: "spec_number_value ?l = V_DOUBLE (- (1 / 2))" by (simp add: d)
  have ltx: "literal_text ?l @ '']'' = ''-.5]''" by simp
  from number_without_integer_digits [where rest = "'',''" and obj = json_object_new
      and fp = None and ep = None and n = True and str = "''-''"] e(1)
  have 1: "parse_number ''-,'' json_object_new = Some ('','', JSON 0 (V_INT 0))"
    and 3: "\<exists>r. parse_number ''-'' json_object_new = Some r"
    by (simp_all add: set_payload_def json_object_new_def)
  from number_without_integer_digits [where rest = "'']''" and obj = json_object_new
      and fp = "Some ''5''" and ep = None and n = True] e(2) f
  have 2: "parse_number ''-.5]'' json_object_new = Some ('']'', JSON 0 (V_DOUBLE (- (1 / 2))))"
    unfolding ltx val by (simp add: set_payload_def json_object_new_def)
  from 1 2 3 show ?thesis by blast
qed

text \<open>
  Claim C3 as stated, that the top-level input \<^verbatim>\<open>-\<close> is a parse failure, is false.
\<close>

theorem dash_parses_counterexample:
  "pa_json_parse ''-'' = Some (JSON 0 (V_INT 0)) \<and> pa_json_parse ''-'' \<noteq> None"
  by code_simp




text \<open>
  Claim C5. A string literal whose body is a sequence of unescaped printable characters
  (other than the quote and the backslash) and of the escapes of the quote, the backslash,
  the slash and of \<^verbatim>\<open>b\<close>, \<^verbatim>\<open>f\<close>, \<^verbatim>\<open>n\<close>, \<^verbatim>\<open>r\<close>, \<^verbatim>\<open>t\<close> parses, in the string production and as a
  whole input, to the String of the decoded characters: the first three escapes give the
  escaped character itself, the others the backspace, form feed, new line, carriage
  return and horizontal tab. After any such body, the escape \<^verbatim>\<open>u\<close>, any other escape character (also the end
  of the input after a backslash), an unescaped character outside the range 0x20 to 0x7E,
  and the end of the input before a closing quote (also after escaped quotes) make the
  production and the parser fail. Only such literals parse. The same holds step by step
  in the loop of the production.
\<close>

theorem string_production:
  "(list_all item_ok items \<longrightarrow>
      parse_string (CHR 0x22 # body_text items @ CHR 0x22 # rest) obj
        = Some (rest, set_payload obj (V_STRING (decoded items))) \<and>
      pa_json_parse (CHR 0x22 # body_text items @ [CHR 0x22])
        = Some (JSON 0 (V_STRING (decoded items))) \<and>
      (c \<notin> {CHR 0x22, CHR 0x5C, CHR ''/'', CHR ''b'', CHR ''f'', CHR ''n'', CHR ''r'', CHR ''t''} \<longrightarrow>
         parse_string (CHR 0x22 # body_text items @ CHR 0x5C # c # rest) obj = None \<and>
         pa_json_parse (CHR 0x22 # body_text items @ CHR 0x5C # c # rest) = None) \<and>
      parse_string (CHR 0x22 # body_text items @ CHR 0x5C # CHR ''u'' # rest) obj = None \<and>
      pa_json_parse (CHR 0x22 # body_text items @ CHR 0x5C # CHR ''u'' # rest) = None \<and>
      ((of_char c :: nat) < 0x20 \<or> (of_char c :: nat) > 0x7E \<longrightarrow>
         parse_string (CHR 0x22 # body_text items @ c # rest) obj = None \<and>
         pa_json_parse (CHR 0x22 # body_text items @ c # rest) = None) \<and>
      parse_string (CHR 0x22 # body_text items) obj = None \<and>
      pa_json_parse (CHR 0x22 # body_text items) = None) \<and>
   decoded [Plain c] = [c] \<and>
   decoded [Escape (CHR 0x22)] = [CHR 0x22] \<and>
   decoded [Escape (CHR 0x5C)] = [CHR 0x5C] \<and>
   decoded [Escape (CHR ''/'')] = [CHR ''/''] \<and>
   decoded [Escape (CHR ''b'')] = [CHR 0x08] \<and>
   decoded [Escape (CHR ''f'')] = [CHR 0x0C] \<and>
   decoded [Escape (CHR ''n'')] = [CHR 0x0A] \<and>
   decoded [Escape (CHR ''r'')] = [CHR 0x0D] \<and>
   decoded [Escape (CHR ''t'')] = [CHR 0x09] \<and>
   (c = CHR 0x22 \<or> c = CHR 0x5C \<or> c = CHR ''/'' \<longrightarrow>
      parse_string_loop (CHR 0x5C # c # rest) buf = parse_string_loop rest (buf @ [c])) \<and>
   parse_string_loop (CHR 0x5C # CHR ''b'' # rest) buf = parse_string_loop rest (buf @ [CHR 0x08]) \<and>
   parse_string_loop (CHR 0x5C # CHR ''f'' # rest) buf = parse_string_loop rest (buf @ [CHR 0x0C]) \<and>
   parse_string_loop (CHR 0x5C # CHR ''n'' # rest) buf = parse_string_loop rest (buf @ [CHR 0x0A]) \<and>
   parse_string_loop (CHR 0x5C # CHR ''r'' # rest) buf = parse_string_loop rest (buf @ [CHR 0x0D]) \<and>
   parse_string_loop (CHR 0x5C # CHR ''t'' # rest) buf = parse_string_loop rest (buf @ [CHR 0x09]) \<and>
   parse_string_loop (CHR 0x5C # CHR ''u'' # rest) buf = None \<and>
   (c \<notin> {CHR 0x22, CHR 0x5C, CHR ''/'', CHR ''b'', CHR ''f'', CHR ''n'', CHR ''r'', CHR ''t''} \<longrightarrow>
      parse_string_loop (CHR 0x5C # c # rest) buf = None) \<and>
   parse_string_loop [CHR 0x5C] buf = None \<and>
   ((of_char c :: nat) < 0x20 \<or> (of_char c :: nat) > 0x7E \<longrightarrow>
      parse_string_loop (c # rest) buf = None) \<and>
   parse_string_loop (CHR 0x22 # rest) buf = Some (rest, buf) \<and>
   (CHR 0x22 \<notin> set str \<longrightarrow> parse_string_loop str buf = None \<and> parse_string (d # str) obj = None) \<and>
   (parse_string_loop str buf = Some (str', buf') \<longrightarrow> (\<exists>body. str = body @ CHR 0x22 # str')) \<and>
   (parse_string (CHR 0x22 # str) obj = Some (str', obj') \<longrightarrow>
      (\<exists>items. list_all item_ok items \<and> str = body_text items @ CHR 0x22 # str' \<and>
         obj' = set_payload obj (V_STRING (decoded items))))"
proof -
  have esc_fail: "parse_string_loop (CHR 0x5C # e # r) b = None"
    if "e \<notin> {CHR 0x22, CHR 0x5C, CHR ''/'', CHR ''b'', CHR ''f'', CHR ''n'', CHR ''r'', CHR ''t''}"
    for e r b
    using that by (simp add: parse_string_loop_escape unescape_def)
  have range_fail: "parse_string_loop (e # r) b = None"
    if r: "(of_char e :: nat) < 0x20 \<or> (of_char e :: nat) > 0x7E" for e r b
  proof -
    from r have "e \<noteq> CHR 0x22" "e \<noteq> CHR 0x5C" by auto
    with r show ?thesis by (simp add: parse_string_loop_plain)
  qed
  have literal: "list_all item_ok items \<longrightarrow>
      parse_string (CHR 0x22 # body_text items @ CHR 0x22 # rest) obj
        = Some (rest, set_payload obj (V_STRING (decoded items))) \<and>
      pa_json_parse (CHR 0x22 # body_text items @ [CHR 0x22])
        = Some (JSON 0 (V_STRING (decoded items))) \<and>
      (c \<notin> {CHR 0x22, CHR 0x5C, CHR ''/'', CHR ''b'', CHR ''f'', CHR ''n'', CHR ''r'', CHR ''t''} \<longrightarrow>
         parse_string (CHR 0x22 # body_text items @ CHR 0x5C # c # rest) obj = None \<and>
         pa_json_parse (CHR 0x22 # body_text items @ CHR 0x5C # c # rest) = None) \<and>
      parse_string (CHR 0x22 # body_text items @ CHR 0x5C # CHR ''u'' # rest) obj = None \<and>
      pa_json_parse (CHR 0x22 # body_text items @ CHR 0x5C # CHR ''u'' # rest) = None \<and>
      ((of_char c :: nat) < 0x20 \<or> (of_char c :: nat) > 0x7E \<longrightarrow>
         parse_string (CHR 0x22 # body_text items @ c # rest) obj = None \<and>
         pa_json_parse (CHR 0x22 # body_text items @ c # rest) = None) \<and>
      parse_string (CHR 0x22 # body_text items) obj = None \<and>
      pa_json_parse (CHR 0x22 # body_text items) = None"
  proof
    assume ok: "list_all item_ok items"
    have 1: "parse_string (CHR 0x22 # body_text items @ CHR 0x22 # r) ob
        = Some (r, set_payload ob (V_STRING (decoded items)))" for r ob
      by (simp add: parse_string_items [OF ok] parse_string_loop_quote)
    have 2: "pa_json_parse (CHR 0x22 # body_text items @ [CHR 0x22])
        = Some (JSON 0 (V_STRING (decoded items)))"
      using pa_json_parse_string_Some [OF 1 [of "[]" json_object_new]]
      by (simp add: set_payload_def json_object_new_def)
    have 3: "parse_string (CHR 0x22 # body_text items @ CHR 0x5C # e # r) ob = None"
      if "e \<notin> {CHR 0x22, CHR 0x5C, CHR ''/'', CHR ''b'', CHR ''f'', CHR ''n'', CHR ''r'', CHR ''t''}"
      for e r ob
      by (simp add: parse_string_items [OF ok] esc_fail [OF that])
    have 4: "parse_string (CHR 0x22 # body_text items @ e # r) ob = None"
      if "(of_char e :: nat) < 0x20 \<or> (of_char e :: nat) > 0x7E" for e r ob
      by (simp add: parse_string_items [OF ok] range_fail [OF that])
    have 5: "parse_string (CHR 0x22 # body_text items) ob = None" for ob
      using parse_string_items [OF ok, of "[]" ob] by (simp add: parse_string_loop_Nil)
    have u: "CHR ''u'' \<notin> {CHR 0x22, CHR 0x5C, CHR ''/'', CHR ''b'', CHR ''f'', CHR ''n'', CHR ''r'', CHR ''t''}"
      by simp
    have 6: "c \<notin> {CHR 0x22, CHR 0x5C, CHR ''/'', CHR ''b'', CHR ''f'', CHR ''n'', CHR ''r'', CHR ''t''} \<longrightarrow>
         parse_string (CHR 0x22 # body_text items @ CHR 0x5C # c # rest) obj = None \<and>
         pa_json_parse (CHR 0x22 # body_text items @ CHR 0x5C # c # rest) = None"
      using 3 [of c rest] by (simp add: pa_json_parse_string_None)
    have 7: "parse_string (CHR 0x22 # body_text items @ CHR 0x5C # CHR ''u'' # rest) obj = None"
      "pa_json_parse (CHR 0x22 # body_text items @ CHR 0x5C # CHR ''u'' # rest) = None"
      using 3 [OF u, of rest] by (simp_all add: pa_json_parse_string_None)
    have 8: "(of_char c :: nat) < 0x20 \<or> (of_char c :: nat) > 0x7E \<longrightarrow>
         parse_string (CHR 0x22 # body_text items @ c # rest) obj = None \<and>
         pa_json_parse (CHR 0x22 # body_text items @ c # rest) = None"
      using 4 [of c rest] by (simp add: pa_json_parse_string_None)
    have 9: "parse_string (CHR 0x22 # body_text items) obj = None"
      "pa_json_parse (CHR 0x22 # body_text items) = None"
      using 5 by (simp_all add: pa_json_parse_string_None)
    show "parse_string (CHR 0x22 # body_text items @ CHR 0x22 # rest) obj
        = Some (rest, set_payload obj (V_STRING (decoded items))) \<and>
      pa_json_parse (CHR 0x22 # body_text items @ [CHR 0x22])
        = Some (JSON 0 (V_STRING (decoded items))) \<and>
      (c \<notin> {CHR 0x22, CHR 0x5C, CHR ''/'', CHR ''b'', CHR ''f'', CHR ''n'', CHR ''r'', CHR ''t''} \<longrightarrow>
         parse_string (CHR 0x22 # body_text items @ CHR 0x5C # c # rest) obj = None \<and>
         pa_json_parse (CHR 0x22 # body_text items @ CHR 0x5C # c # rest) = None) \<and>
      parse_string (CHR 0x22 # body_text items @ CHR 0x5C # CHR ''u'' # rest) obj = None \<and>
      pa_json_parse (CHR 0x22 # body_text items @ CHR 0x5C # CHR ''u'' # rest) = None \<and>
      ((of_char c :: nat) < 0x20 \<or> (of_char c :: nat) > 0x7E \<longrightarrow>
         parse_string (CHR 0x22 # body_text items @ c # rest) obj = None \<and>
         pa_json_parse (CHR 0x22 # body_text items @ c # rest) = None) \<and>
      parse_string (CHR 0x22 # body_text items) obj = None \<and>
      pa_json_parse (CHR 0x22 # body_text items) = None"
      by (intro conjI) (fact 1 2 6 7 8 9)+
  qed
  have table:
    "decoded [Plain c] = [c]"
    "decoded [Escape (CHR 0x22)] = [CHR 0x22]"
    "decoded [Escape (CHR 0x5C)] = [CHR 0x5C]"
    "decoded [Escape (CHR ''/'')] = [CHR ''/'']"
    "decoded [Escape (CHR ''b'')] = [CHR 0x08]"
    "decoded [Escape (CHR ''f'')] = [CHR 0x0C]"
    "decoded [Escape (CHR ''n'')] = [CHR 0x0A]"
    "decoded [Escape (CHR ''r'')] = [CHR 0x0D]"
    "decoded [Escape (CHR ''t'')] = [CHR 0x09]"
    by (simp_all add: decoded_def)
  have pass: "c = CHR 0x22 \<or> c = CHR 0x5C \<or> c = CHR ''/'' \<longrightarrow>
      parse_string_loop (CHR 0x5C # c # rest) buf = parse_string_loop rest (buf @ [c])"
    by (auto simp: parse_string_loop_escape unescape_def)
  have ctl:
    "parse_string_loop (CHR 0x5C # CHR ''b'' # rest) buf = parse_string_loop rest (buf @ [CHR 0x08])"
    "parse_string_loop (CHR 0x5C # CHR ''f'' # rest) buf = parse_string_loop rest (buf @ [CHR 0x0C])"
    "parse_string_loop (CHR 0x5C # CHR ''n'' # rest) buf = parse_string_loop rest (buf @ [CHR 0x0A])"
    "parse_string_loop (CHR 0x5C # CHR ''r'' # rest) buf = parse_string_loop rest (buf @ [CHR 0x0D])"
    "parse_string_loop (CHR 0x5C # CHR ''t'' # rest) buf = parse_string_loop rest (buf @ [CHR 0x09])"
    by (simp_all add: parse_string_loop_escape unescape_def)
  have u: "parse_string_loop (CHR 0x5C # CHR ''u'' # rest) buf = None"
    by (simp add: parse_string_loop_escape unescape_def)
  have other:
    "c \<notin> {CHR 0x22, CHR 0x5C, CHR ''/'', CHR ''b'', CHR ''f'', CHR ''n'', CHR ''r'', CHR ''t''} \<longrightarrow>
      parse_string_loop (CHR 0x5C # c # rest) buf = None"
    using esc_fail by blast
  have eos: "parse_string_loop [CHR 0x5C] buf = None"
    by (simp add: parse_string_loop_escape unescape_def)
  have range: "(of_char c :: nat) < 0x20 \<or> (of_char c :: nat) > 0x7E \<longrightarrow>
      parse_string_loop (c # rest) buf = None"
    using range_fail by blast
  have quote: "parse_string_loop (CHR 0x22 # rest) buf = Some (rest, buf)"
    by (simp add: parse_string_loop_quote)
  have unterminated:
    "CHR 0x22 \<notin> set str \<longrightarrow> parse_string_loop str buf = None \<and> parse_string (d # str) obj = None"
    by (simp add: parse_string_loop_no_quote parse_string_def)
  have closing:
    "parse_string_loop str buf = Some (str', buf') \<longrightarrow> (\<exists>body. str = body @ CHR 0x22 # str')"
    by (auto dest: parse_string_loop_closing_quote)
  have only: "parse_string (CHR 0x22 # str) obj = Some (str', obj') \<longrightarrow>
      (\<exists>items. list_all item_ok items \<and> str = body_text items @ CHR 0x22 # str' \<and>
         obj' = set_payload obj (V_STRING (decoded items)))"
  proof
    assume "parse_string (CHR 0x22 # str) obj = Some (str', obj')"
    then obtain b where "parse_string_loop str [] = Some (str', b)"
      and o: "obj' = set_payload obj (V_STRING b)"
      by (auto simp: parse_string_def split: option.splits)
    from parse_string_loop_Some_items [OF this(1)] o
    show "\<exists>items. list_all item_ok items \<and> str = body_text items @ CHR 0x22 # str' \<and>
         obj' = set_payload obj (V_STRING (decoded items))"
      by auto
  qed
  show ?thesis
    by (intro conjI) (fact literal table pass ctl u other eos range quote unterminated closing only)+
qed


theorem string_production_witness:
  "pa_json_parse (CHR 0x22 # ''a'' @ [CHR 0x5C] @ ''n'' @ [CHR 0x5C, CHR 0x22] @ ''b'' @ [CHR 0x22])
     = Some (JSON 0 (V_STRING (''a'' @ [CHR 0x0A, CHR 0x22] @ ''b''))) \<and>
   parse_string (CHR 0x22 # [CHR 0x5C] @ ''t'' @ [CHR 0x22] @ '',1'') json_object_new
     = Some ('',1'', JSON 0 (V_STRING [CHR 0x09])) \<and>
   pa_json_parse (CHR 0x22 # ''a'' @ [CHR 0x5C] @ ''u0041'' @ [CHR 0x22]) = None \<and>
   pa_json_parse (CHR 0x22 # ''a'' @ [CHR 0x5C] @ ''z'' @ [CHR 0x22]) = None \<and>
   pa_json_parse (CHR 0x22 # ''a'' @ [CHR 0x09] @ ''b'' @ [CHR 0x22]) = None \<and>
   pa_json_parse (CHR 0x22 # ''a'' @ [CHR 0x80] @ ''b'' @ [CHR 0x22]) = None \<and>
   pa_json_parse (CHR 0x22 # ''abc'') = None \<and>
   pa_json_parse (CHR 0x22 # ''a'' @ [CHR 0x5C, CHR 0x22]) = None \<and>
   parse_string_loop (CHR 0x5C # CHR 0x22 # ''x'') ''a'' = parse_string_loop ''x'' (''a'' @ [CHR 0x22]) \<and>
   parse_string_loop ''abc'' [] = None \<and>
   (\<exists>body. ''ab'' @ CHR 0x22 # ''x'' = body @ CHR 0x22 # ''x'') \<and>
   (\<exists>items. list_all item_ok items \<and> ''ab'' @ [CHR 0x22] = body_text items @ CHR 0x22 # [] \<and>
      JSON 0 (V_STRING ''ab'') = set_payload json_object_new (V_STRING (decoded items)))"
proof -
  have ok1: "list_all item_ok [Plain (CHR ''a''), Escape (CHR ''n''), Escape (CHR 0x22), Plain (CHR ''b'')]"
    and ok2: "list_all item_ok [Escape (CHR ''t'')]"
    and ok3: "list_all item_ok [Plain (CHR ''a'')]"
    and ok4: "list_all item_ok [Plain (CHR ''a''), Plain (CHR ''b''), Plain (CHR ''c'')]"
    and ok5: "list_all item_ok [Plain (CHR ''a''), Escape (CHR 0x22)]"
    by (simp_all add: plain_char_def)
  have loop: "parse_string_loop (''ab'' @ CHR 0x22 # ''x'') [] = Some (''x'', ''ab'')"
    and prod: "parse_string (CHR 0x22 # ''ab'' @ [CHR 0x22]) json_object_new
      = Some ([], JSON 0 (V_STRING ''ab''))"
    by code_simp+
  note t1 = string_production [where items = "[Plain (CHR ''a''), Escape (CHR ''n''), Escape (CHR 0x22), Plain (CHR ''b'')]"]
  note t2 = string_production [where items = "[Escape (CHR ''t'')]" and rest = "'',1''"
      and obj = json_object_new]
  note t3 = string_production [where items = "[Plain (CHR ''a'')]" and c = "CHR ''z''"
      and rest = "''z'' @ [CHR 0x22]"]
  note t4 = string_production [where items = "[Plain (CHR ''a'')]" and c = "CHR ''z''"
      and rest = "[CHR 0x22]"]
  note t5 = string_production [where items = "[Plain (CHR ''a'')]" and c = "CHR 0x09"
      and rest = "''b'' @ [CHR 0x22]"]
  note t6 = string_production [where items = "[Plain (CHR ''a'')]" and c = "CHR 0x80"
      and rest = "''b'' @ [CHR 0x22]"]
  note t7 = string_production [where items = "[Plain (CHR ''a''), Plain (CHR ''b''), Plain (CHR ''c'')]"]
  note t8 = string_production [where items = "[Plain (CHR ''a''), Escape (CHR 0x22)]"
      and c = "CHR 0x22" and rest = "''x''" and buf = "''a''" and str = "''abc''"]
  note t9 = string_production [where str = "''ab'' @ CHR 0x22 # ''x''" and buf = "[]"
      and str' = "''x''" and buf' = "''ab''"]
  note t10 = string_production [where str = "''ab'' @ [CHR 0x22]" and obj = json_object_new
      and str' = "[]" and obj' = "JSON 0 (V_STRING ''ab'')"]
  have 1: "pa_json_parse (CHR 0x22 # ''a'' @ [CHR 0x5C] @ ''n'' @ [CHR 0x5C, CHR 0x22] @ ''b'' @ [CHR 0x22])
     = Some (JSON 0 (V_STRING (''a'' @ [CHR 0x0A, CHR 0x22] @ ''b'')))"
    using t1 ok1 by (simp add: decoded_def)
  have 2: "parse_string (CHR 0x22 # [CHR 0x5C] @ ''t'' @ [CHR 0x22] @ '',1'') json_object_new
     = Some ('',1'', JSON 0 (V_STRING [CHR 0x09]))"
    using t2 ok2 by (simp add: decoded_def set_payload_def json_object_new_def)
  have 3: "pa_json_parse (CHR 0x22 # ''a'' @ [CHR 0x5C] @ ''u0041'' @ [CHR 0x22]) = None"
    using string_production [where items = "[Plain (CHR ''a'')]" and rest = "''0041'' @ [CHR 0x22]"] ok3
    by simp
  have 4: "pa_json_parse (CHR 0x22 # ''a'' @ [CHR 0x5C] @ ''z'' @ [CHR 0x22]) = None"
    using t4 ok3 by simp
  have 5: "pa_json_parse (CHR 0x22 # ''a'' @ [CHR 0x09] @ ''b'' @ [CHR 0x22]) = None"
    using t5 ok3 by simp
  have 6: "pa_json_parse (CHR 0x22 # ''a'' @ [CHR 0x80] @ ''b'' @ [CHR 0x22]) = None"
    using t6 ok3 by simp
  have 7: "pa_json_parse (CHR 0x22 # ''abc'') = None"
    using t7 ok4 by simp
  have 8: "pa_json_parse (CHR 0x22 # ''a'' @ [CHR 0x5C, CHR 0x22]) = None"
    using t8 ok5 by simp
  have 9: "parse_string_loop (CHR 0x5C # CHR 0x22 # ''x'') ''a'' = parse_string_loop ''x'' (''a'' @ [CHR 0x22])"
    using t8 by simp
  have 10: "parse_string_loop ''abc'' [] = None"
    using string_production [where str = "''abc''" and buf = "[]"] by simp
  have 11: "\<exists>body. ''ab'' @ CHR 0x22 # ''x'' = body @ CHR 0x22 # ''x''"
    using t9 loop by simp
  have 12: "\<exists>items. list_all item_ok items \<and> ''ab'' @ [CHR 0x22] = body_text items @ CHR 0x22 # [] \<and>
      JSON 0 (V_STRING ''ab'') = set_payload json_object_new (V_STRING (decoded items))"
    using t10 prod by simp
  show ?thesis
    by (intro conjI) (fact 1 2 3 4 5 6 7 8 9 10 11 12)+
qed

text \<open>
  Claim C6. In any iteration of the object production, when the key fails to parse or
  parses to a value whose discriminant is not String, the loop fails, the whole object
  production fails, and the parser reports no result; so for \<^verbatim>\<open>{1:2}\<close>.
\<close>

theorem object_key_must_be_string:
  assumes "object_iteration str0 [] str object_values"
    and "peek str \<noteq> CHR ''}''"
    and "parse_value (tl str) (Some '':'') = None \<or>
         (\<exists>str1 name. parse_value (tl str) (Some '':'') = Some (str1, name) \<and>
            JSON_OBJECT_TYPE name \<noteq> PA_JSON_TYPE_STRING)"
  shows "parse_object_loop str object_values = None \<and> parse_object str0 obj = None \<and>
         (peek str0 = CHR ''{'' \<longrightarrow> pa_json_parse str0 = None)"
proof -
  from assms(2,3) have l: "parse_object_loop str object_values = None"
    by (auto simp: parse_object_loop_step)
  with object_iteration_loop [OF assms(1)] have o: "\<And>obj. parse_object str0 obj = None"
    by (simp add: parse_object.simps)
  have "pa_json_parse str0 = None" if b: "peek str0 = CHR ''{''"
  proof -
    from b have "\<not> is_whitespace (peek str0)" by (simp add: is_whitespace_def)
    then have "skip_whitespace str0 = str0" by (rule skip_whitespace_id)
    moreover from b have "production str0 json_object_new = None"
      by (simp add: production_def o is_digit_def)
    ultimately show ?thesis by (simp add: pa_json_parse_def parse_value_top)
  qed
  with l o show ?thesis by simp
qed

theorem object_key_must_be_string_witness:
  "pa_json_parse ''{1:2}'' = None \<and>
   pa_json_parse (''{'' @ [CHR 0x22] @ ''a'' @ [CHR 0x22] @ '':1,2:3}'') = None"
proof -
  have k1: "parse_value (tl ''{1:2}'') (Some '':'') = Some ('':2}'', JSON 0 (V_INT 1))"
    by code_simp
  have 1: "pa_json_parse ''{1:2}'' = None"
    using object_key_must_be_string [OF start, of "''{1:2}''" json_object_new] k1 by simp
  let ?s = "''{'' @ [CHR 0x22] @ ''a'' @ [CHR 0x22] @ '':1,2:3}''"
  have a: "parse_value (tl ?s) (Some '':'') = Some ('':1,2:3}'', JSON 0 (V_STRING ''a''))"
    by code_simp
  have b: "parse_value (tl '':1,2:3}'') (Some '',}'') = Some ('',2:3}'', JSON 0 (V_INT 1))"
    by code_simp
  have it: "object_iteration ?s [] '',2:3}'' (pa_hashmap_put [] ''a'' (JSON 0 (V_INT 1)))"
    by (rule step [OF start _ a _ b]) simp_all
  have k2: "parse_value (tl '',2:3}'') (Some '':'') = Some ('':3}'', JSON 0 (V_INT 2))"
    by code_simp
  have 2: "pa_json_parse ?s = None"
    using object_key_must_be_string [OF it, of json_object_new] k2 by simp
  from 1 2 show ?thesis by simp
qed

text \<open>
  Claim C7. The top-level entry point succeeds exactly when, after leading whitespace, one
  production returns a value and the text it leaves consists of whitespace only up to the
  terminating null character; the result is then that value. Remaining non-whitespace text
  after a complete value is a failure (\<^verbatim>\<open>42 x\<close>), trailing whitespace is accepted
  (\<^verbatim>\<open>42\<close> followed by three spaces).
\<close>

theorem pa_json_parse_one_value:
  "pa_json_parse str =
     (case production (skip_whitespace str) json_object_new of
        None \<Rightarrow> None
      | Some (rest, v) \<Rightarrow> if peek (skip_whitespace rest) = CHR 0x00 then Some v else None) \<and>
   pa_json_parse ''42 x'' = None \<and>
   pa_json_parse ''42   '' = Some (JSON 0 (V_INT 42))"
proof (intro conjI)
  show "pa_json_parse str =
     (case production (skip_whitespace str) json_object_new of
        None \<Rightarrow> None
      | Some (rest, v) \<Rightarrow> if peek (skip_whitespace rest) = CHR 0x00 then Some v else None)"
  proof (cases "production (skip_whitespace str) json_object_new")
    case None
    then show ?thesis by (simp add: pa_json_parse_def parse_value_top)
  next
    case (Some a)
    then obtain rest v where a: "a = (rest, v)" by (cases a)
    from Some a have "JSON_OBJECT_TYPE v \<noteq> PA_JSON_TYPE_INIT" by (auto dest: production_type)
    with Some a show ?thesis
      by (simp add: pa_json_parse_def parse_value_top parse_value_loop_finish_top)
  qed
  show "pa_json_parse ''42 x'' = None" by code_simp
  show "pa_json_parse ''42   '' = Some (JSON 0 (V_INT 42))" by code_simp
qed

text \<open>
  Claim C8. Every typed getter called on a value whose discriminant does not match returns
  its default (0, 0, false, null, null, 0, null); the getters are pure functions, so the
  value is not modified. \<^verbatim>\<open>get_array_member\<close> with an index out of range (negative, or
  at least the length) returns null; \<^verbatim>\<open>get_object_member\<close> returns null exactly for an
  absent key, and a member that is present gives a non-null reference, also when it holds
  a JSON null.
\<close>

theorem typed_getters_defaults:
  "(JSON_OBJECT_TYPE obj \<noteq> PA_JSON_TYPE_INT \<longrightarrow> pa_json_object_get_int obj = 0) \<and>
   (JSON_OBJECT_TYPE obj \<noteq> PA_JSON_TYPE_DOUBLE \<longrightarrow> pa_json_object_get_double obj = 0) \<and>
   (JSON_OBJECT_TYPE obj \<noteq> PA_JSON_TYPE_BOOL \<longrightarrow> pa_json_object_get_bool obj = False) \<and>
   (JSON_OBJECT_TYPE obj \<noteq> PA_JSON_TYPE_STRING \<longrightarrow> pa_json_object_get_string obj = None) \<and>
   (JSON_OBJECT_TYPE obj \<noteq> PA_JSON_TYPE_OBJECT \<longrightarrow>
      pa_json_object_get_object_member obj name = None) \<and>
   (JSON_OBJECT_TYPE obj \<noteq> PA_JSON_TYPE_ARRAY \<longrightarrow> pa_json_object_get_array_length obj = 0) \<and>
   (JSON_OBJECT_TYPE obj \<noteq> PA_JSON_TYPE_ARRAY \<longrightarrow>
      pa_json_object_get_array_member obj index = None) \<and>
   (JSON_OBJECT_TYPE obj = PA_JSON_TYPE_ARRAY \<and> - (2 ^ 31) \<le> index \<and> index < 2 ^ 31 \<and>
    (index < 0 \<or> pa_json_object_get_array_length obj \<le> index) \<and>
    pa_json_object_get_array_length obj < 2 ^ 31 \<longrightarrow>
      pa_json_object_get_array_member obj index = None) \<and>
   (pa_json_object_get_object_member (JSON r (V_OBJECT h)) name = None
      \<longleftrightarrow> name \<notin> fst ` set h) \<and>
   (map_of h name = Some (JSON r' V_NULL) \<longrightarrow>
      pa_json_object_get_object_member (JSON r (V_OBJECT h)) name = Some (JSON r' V_NULL))"
proof -
  obtain rc v where o: "obj = JSON rc v" by (cases obj)
  have mismatch:
    "JSON_OBJECT_TYPE obj \<noteq> PA_JSON_TYPE_INT \<longrightarrow> pa_json_object_get_int obj = 0"
    "JSON_OBJECT_TYPE obj \<noteq> PA_JSON_TYPE_DOUBLE \<longrightarrow> pa_json_object_get_double obj = 0"
    "JSON_OBJECT_TYPE obj \<noteq> PA_JSON_TYPE_BOOL \<longrightarrow> pa_json_object_get_bool obj = False"
    "JSON_OBJECT_TYPE obj \<noteq> PA_JSON_TYPE_STRING \<longrightarrow> pa_json_object_get_string obj = None"
    "JSON_OBJECT_TYPE obj \<noteq> PA_JSON_TYPE_OBJECT \<longrightarrow>
       pa_json_object_get_object_member obj name = None"
    "JSON_OBJECT_TYPE obj \<noteq> PA_JSON_TYPE_ARRAY \<longrightarrow> pa_json_object_get_array_length obj = 0"
    "JSON_OBJECT_TYPE obj \<noteq> PA_JSON_TYPE_ARRAY \<longrightarrow>
       pa_json_object_get_array_member obj index = None"
    unfolding o by (cases v; simp)+
  have range:
    "JSON_OBJECT_TYPE obj = PA_JSON_TYPE_ARRAY \<and> - (2 ^ 31) \<le> index \<and> index < 2 ^ 31 \<and>
     (index < 0 \<or> pa_json_object_get_array_length obj \<le> index) \<and>
     pa_json_object_get_array_length obj < 2 ^ 31 \<longrightarrow>
       pa_json_object_get_array_member obj index = None"
  proof (intro impI, elim conjE)
    assume t: "JSON_OBJECT_TYPE obj = PA_JSON_TYPE_ARRAY"
      and lo: "- (2 ^ 31) \<le> index" and hi: "index < 2 ^ 31"
      and out: "index < 0 \<or> pa_json_object_get_array_length obj \<le> index"
      and len: "pa_json_object_get_array_length obj < 2 ^ 31"
    from t o obtain a where v: "v = V_ARRAY a" by (cases v) simp_all
    from len have l: "int (length a) < 2 ^ 31" by (simp add: o v pa_idxset_size_def)
    have "int (length a) \<le> index mod 2 ^ 32"
    proof (cases "index < 0")
      case True
      have "(index + 2 ^ 32) mod 2 ^ 32 = index + 2 ^ 32"
        using lo True by (intro mod_pos_pos_trivial) simp_all
      then have "index mod 2 ^ 32 = index + 2 ^ 32" by simp
      with lo l show ?thesis by simp
    next
      case False
      with hi have "index mod 2 ^ 32 = index" by simp
      with False out show ?thesis by (simp add: o v pa_idxset_size_def)
    qed
    then have "\<not> nat (index mod 2 ^ 32) < length a" by linarith
    then show "pa_json_object_get_array_member obj index = None"
      by (simp add: o v pa_idxset_get_by_index_def)
  qed
  have absent: "pa_json_object_get_object_member (JSON r (V_OBJECT h)) name = None
      \<longleftrightarrow> name \<notin> fst ` set h"
    by (simp add: pa_hashmap_get_def map_of_eq_None_iff)
  have present: "map_of h name = Some (JSON r' V_NULL) \<longrightarrow>
      pa_json_object_get_object_member (JSON r (V_OBJECT h)) name = Some (JSON r' V_NULL)"
    by (simp add: pa_hashmap_get_def)
  from mismatch range absent present show ?thesis by blast
qed

theorem typed_getters_defaults_witness:
  "pa_json_object_get_int (JSON 0 (V_STRING ''a'')) = 0 \<and>
   pa_json_object_get_double (JSON 0 (V_STRING ''a'')) = 0 \<and>
   pa_json_object_get_bool (JSON 0 (V_STRING ''a'')) = False \<and>
   pa_json_object_get_object_member (JSON 0 (V_STRING ''a'')) ''k'' = None \<and>
   pa_json_object_get_array_length (JSON 0 (V_STRING ''a'')) = 0 \<and>
   pa_json_object_get_array_member (JSON 0 (V_STRING ''a'')) 0 = None \<and>
   pa_json_object_get_string (JSON 0 (V_ARRAY [JSON 0 V_NULL])) = None \<and>
   pa_json_object_get_array_member (JSON 0 (V_ARRAY [JSON 0 V_NULL])) 1 = None \<and>
   pa_json_object_get_array_member (JSON 0 (V_ARRAY [JSON 0 V_NULL])) (- 1) = None \<and>
   pa_json_object_get_object_member (JSON 0 (V_OBJECT [(''k'', JSON 0 V_NULL)])) ''z'' = None \<and>
   pa_json_object_get_object_member (JSON 0 (V_OBJECT [(''k'', JSON 0 V_NULL)])) ''k''
     = Some (JSON 0 V_NULL)"
  using
    typed_getters_defaults [where obj = "JSON 0 (V_STRING ''a'')" and name = "''k''"
      and index = 0 and r = 0 and h = "[(''k'', JSON 0 V_NULL)]" and r' = 0]
    typed_getters_defaults [where obj = "JSON 0 (V_ARRAY [JSON 0 V_NULL])" and name = "''z''"
      and index = 1 and r = 0 and h = "[(''k'', JSON 0 V_NULL)]" and r' = 0]
    typed_getters_defaults [where obj = "JSON 0 (V_ARRAY [JSON 0 V_NULL])" and name = "''z''"
      and index = "- 1" and r = 0 and h = "[(''k'', JSON 0 V_NULL)]" and r' = 0]
  by (simp add: pa_idxset_size_def)

text \<open>
  Claim C9. An opening bracket, any run of whitespace and a closing bracket parse to an
  Array of length 0, because the array production skips whitespace after the bracket before
  it looks for an element; the witness instantiates the inputs \<^verbatim>\<open>[]\<close> and \<^verbatim>\<open>[ ]\<close>.
\<close>

theorem empty_array_parses:
  assumes "list_all is_whitespace ws"
  shows "parse_array (CHR ''['' # ws @ CHR '']'' # rest) obj = Some (rest, set_payload obj (V_ARRAY [])) \<and>
         (\<exists>a. pa_json_parse (CHR ''['' # ws @ '']'') = Some a \<and>
              JSON_OBJECT_TYPE a = PA_JSON_TYPE_ARRAY \<and>
              pa_json_object_get_array_length a = 0)"
proof -
  have s: "\<And>rest. skip_whitespace (ws @ CHR '']'' # rest) = CHR '']'' # rest"
    using assms by (simp add: skip_whitespace_append is_whitespace_def)
  then have "\<And>rest. parse_array_loop (CHR ''['' # ws @ CHR '']'' # rest) [] = Some (CHR '']'' # rest, [])"
    by (simp add: parse_array_loop_step)
  then have a: "\<And>rest obj. parse_array (CHR ''['' # ws @ CHR '']'' # rest) obj
      = Some (rest, set_payload obj (V_ARRAY []))"
    by (simp add: parse_array.simps)
  have "production (CHR ''['' # ws @ '']'') json_object_new
      = Some ([], set_payload json_object_new (V_ARRAY []))"
    using a [of "[]"] by (simp add: production_def is_digit_def)
  then have "pa_json_parse (CHR ''['' # ws @ '']'')
      = Some (set_payload json_object_new (V_ARRAY []))"
    by (simp add: pa_json_parse_def parse_value_top parse_value_loop_finish_top is_whitespace_def)
  with a show ?thesis by (simp add: set_payload_def pa_idxset_size_def)
qed

theorem empty_array_parses_witness:
  "(\<exists>a. pa_json_parse ''[]'' = Some a \<and> JSON_OBJECT_TYPE a = PA_JSON_TYPE_ARRAY \<and>
        pa_json_object_get_array_length a = 0) \<and>
   (\<exists>a. pa_json_parse ''[ ]'' = Some a \<and> JSON_OBJECT_TYPE a = PA_JSON_TYPE_ARRAY \<and>
        pa_json_object_get_array_length a = 0)"
  using empty_array_parses [of "[]" "[]" json_object_new]
    empty_array_parses [of "'' ''" "[]" json_object_new]
  by (simp add: is_whitespace_def)

text \<open>
  Claim C10. The empty object literal, with or without interior whitespace, is a parse
  failure: the loop of the object production consumes the opening brace and demands a key
  before a closing brace can be recognised.
\<close>

theorem empty_object_fails:
  assumes "list_all is_whitespace ws"
  shows "parse_object (CHR ''{'' # ws @ CHR ''}'' # rest) obj = None \<and>
         pa_json_parse (CHR ''{'' # ws @ CHR ''}'' # rest) = None"
proof -
  have "parse_value (ws @ CHR ''}'' # rest) (Some '':'') = None"
  proof (rule parse_value_not_a_value)
    show "list_all is_whitespace ws" by (rule assms)
    show "\<not> is_end c (Some '':'')" if "is_whitespace c" for c
      using that by (rule whitespace_not_end)
    show "\<not> is_end (CHR ''}'') (Some '':'')" by simp
    show "\<not> is_whitespace (CHR ''}'')" by (simp add: is_whitespace_def)
    show "production (CHR ''}'' # rest) json_object_new = None"
      by (simp add: production_no_start is_digit_def)
  qed
  then have l: "parse_object_loop (CHR ''{'' # ws @ CHR ''}'' # rest) [] = None"
    by (simp add: parse_object_loop_step)
  then have o: "\<And>obj. parse_object (CHR ''{'' # ws @ CHR ''}'' # rest) obj = None"
    by (simp add: parse_object.simps)
  have "production (CHR ''{'' # ws @ CHR ''}'' # rest) json_object_new = None"
    by (simp add: production_def o is_digit_def)
  then have "pa_json_parse (CHR ''{'' # ws @ CHR ''}'' # rest) = None"
    by (simp add: pa_json_parse_def parse_value_top is_whitespace_def)
  with o show ?thesis by simp
qed

theorem empty_object_fails_witness:
  "pa_json_parse ''{}'' = None \<and> pa_json_parse ''{ }'' = None \<and>
   parse_object ''{}'' json_object_new = None"
  using empty_object_fails [of "[]" "[]" json_object_new]
    empty_object_fails [of "'' ''" "[]" json_object_new]
  by (simp add: is_whitespace_def)

end
